theory Spec2Isabelle
  imports Complex_Main "HOL-Library.AList" "HOL-Library.Sublist"
begin

section \<open>JavaScript values, objects and the heap\<close>

text \<open>
  The middleware engine passes one mutable context object to every unit, and the debug
  sanitizer walks object graphs that may be cyclic.  Values are therefore modelled with
  an explicit store: a primitive is a value by itself, an object or array is a reference
  into a heap.  The heap is a list of objects, the address of an object is its index, and
  allocation appends.  Numbers are the integers (timestamps, durations, indices);
  a function value is an opaque reference.  The entries of an object are kept in
  insertion order, as \<^verbatim>\<open>Object.entries\<close> lists them for string keys; only own
  properties are modelled, not the prototype chain.
\<close>

type_synonym addr = nat

datatype jsval =
    JUndefined
  | JNull
  | JBool bool
  | JNum int
  | JStr string
  | JFunction nat
  | JRef addr

datatype jsobj =
    JArray "jsval list"
  | JObject "(string \<times> jsval) list"

type_synonym heap = "jsobj list"

definition heap_lookup :: "heap \<Rightarrow> addr \<Rightarrow> jsobj option" where
  "heap_lookup h a = (if a < length h then Some (h ! a) else None)"

definition alloc :: "heap \<Rightarrow> jsobj \<Rightarrow> addr \<times> heap" where
  "alloc h ob = (length h, h @ [ob])"

datatype jstype = TUndefined | TObject | TBoolean | TNumber | TString | TFunction

fun typeof :: "jsval \<Rightarrow> jstype" where
  "typeof JUndefined = TUndefined"
| "typeof JNull = TObject"
| "typeof (JBool _) = TBoolean"
| "typeof (JNum _) = TNumber"
| "typeof (JStr _) = TString"
| "typeof (JFunction _) = TFunction"
| "typeof (JRef _) = TObject"

text \<open>\<^verbatim>\<open>v == null\<close>: true of \<^verbatim>\<open>null\<close> and \<^verbatim>\<open>undefined\<close> only.\<close>

fun is_nullish :: "jsval \<Rightarrow> bool" where
  "is_nullish JUndefined = True"
| "is_nullish JNull = True"
| "is_nullish _ = False"

text \<open>\<^verbatim>\<open>Boolean(v)\<close>, also the test of an \<^verbatim>\<open>if\<close>.\<close>

fun truthy :: "jsval \<Rightarrow> bool" where
  "truthy JUndefined = False"
| "truthy JNull = False"
| "truthy (JBool b) = b"
| "truthy (JNum n) = (n \<noteq> 0)"
| "truthy (JStr s) = (s \<noteq> [])"
| "truthy (JFunction _) = True"
| "truthy (JRef _) = True"

subsection \<open>Strings\<close>

text \<open>Strings are ASCII; \<^verbatim>\<open>toLowerCase\<close> maps A-Z to a-z.\<close>

definition lower_char :: "char \<Rightarrow> char" where
  "lower_char c =
     (case map_of (zip ''ABCDEFGHIJKLMNOPQRSTUVWXYZ'' ''abcdefghijklmnopqrstuvwxyz'') c of
        Some d \<Rightarrow> d
      | None \<Rightarrow> c)"

definition toLowerCase :: "string \<Rightarrow> string" where
  "toLowerCase s = map lower_char s"

text \<open>\<^verbatim>\<open>path.split('.')\<close>: never empty, the empty string gives one empty key.\<close>

fun split_dot :: "string \<Rightarrow> string list" where
  "split_dot [] = [[]]"
| "split_dot (c # cs) =
     (if c = CHR ''.'' then [] # split_dot cs
      else (case split_dot cs of
              w # ws \<Rightarrow> (c # w) # ws
            | [] \<Rightarrow> [[c]]))"

text \<open>\<^verbatim>\<open>String(n)\<close> for a natural number.\<close>

fun string_of_nat :: "nat \<Rightarrow> string" where
  "string_of_nat n =
     (if n < 10 then [''0123456789'' ! n]
      else string_of_nat (n div 10) @ [''0123456789'' ! (n mod 10)])"

declare string_of_nat.simps [simp del]

text \<open>
  An array index is a key that is the canonical decimal form of a natural number:
  digits only, no leading zero except for \<^verbatim>\<open>"0"\<close> itself.
\<close>

definition is_digit :: "char \<Rightarrow> bool" where
  "is_digit c = (let n = (of_char c :: nat) in 48 \<le> n \<and> n \<le> 57)"

definition digits_value :: "string \<Rightarrow> nat" where
  "digits_value s = foldl (\<lambda>acc c. 10 * acc + ((of_char c :: nat) - 48)) 0 s"

definition parse_index :: "string \<Rightarrow> nat option" where
  "parse_index s =
     (if s = [] \<or> \<not> list_all is_digit s then None
      else if hd s = CHR ''0'' \<and> length s > 1 then None
      else Some (digits_value s))"

subsection \<open>Property access\<close>

text \<open>
  \<^verbatim>\<open>current[key]\<close> on a value that is an object: an own property of a plain object,
  an element or the length of an array, \<^verbatim>\<open>undefined\<close> otherwise.
\<close>

definition array_prop :: "jsval list \<Rightarrow> string \<Rightarrow> jsval" where
  "array_prop xs key =
     (if key = ''length'' then JNum (int (length xs))
      else (case parse_index key of
              Some i \<Rightarrow> (if i < length xs then xs ! i else JUndefined)
            | None \<Rightarrow> JUndefined))"

definition object_prop :: "(string \<times> jsval) list \<Rightarrow> string \<Rightarrow> jsval" where
  "object_prop es key = (case map_of es key of Some v \<Rightarrow> v | None \<Rightarrow> JUndefined)"

definition get_prop :: "heap \<Rightarrow> jsval \<Rightarrow> string \<Rightarrow> jsval" where
  "get_prop h v key =
     (case v of
        JRef a \<Rightarrow>
          (case heap_lookup h a of
             Some (JObject es) \<Rightarrow> object_prop es key
           | Some (JArray xs) \<Rightarrow> array_prop xs key
           | None \<Rightarrow> JUndefined)
      | _ \<Rightarrow> JUndefined)"

text \<open>\<^verbatim>\<open>target[key] = v\<close> on a plain object at address \<open>r\<close>.\<close>

definition assign_prop :: "heap \<Rightarrow> addr \<Rightarrow> string \<Rightarrow> jsval \<Rightarrow> heap" where
  "assign_prop h r key v =
     (case heap_lookup h r of
        Some (JObject es) \<Rightarrow> h[r := JObject (AList.update key v es)]
      | _ \<Rightarrow> h)"

text \<open>Appending the next element to the array at address \<open>r\<close>.\<close>

definition push_item :: "heap \<Rightarrow> addr \<Rightarrow> jsval \<Rightarrow> heap" where
  "push_item h r v =
     (case heap_lookup h r of
        Some (JArray xs) \<Rightarrow> h[r := JArray (xs @ [v])]
      | _ \<Rightarrow> h)"

section \<open>Object utilities (lib/helpers/object.utils)\<close>

text \<open>
  The loop of \<^verbatim>\<open>getValueByPath\<close>: for each key, return \<^verbatim>\<open>undefined\<close> when the current
  value is null, undefined or not an object, else step to the property.
\<close>

fun walk_keys :: "heap \<Rightarrow> jsval \<Rightarrow> string list \<Rightarrow> jsval" where
  "walk_keys h current [] = current"
| "walk_keys h current (key # keys) =
     (if is_nullish current \<or> typeof current \<noteq> TObject then JUndefined
      else walk_keys h (get_prop h current key) keys)"

definition getValueByPath :: "heap \<Rightarrow> jsval \<Rightarrow> string \<Rightarrow> jsval" where
  "getValueByPath h obj path = walk_keys h obj (split_dot path)"

section \<open>Middleware units\<close>

text \<open>
  What a unit returns: a plain boolean or a structured response
  \<^verbatim>\<open>{ allow, redirect?, reason? }\<close>.  A unit may also throw.
\<close>

datatype middleware_return =
    RBool bool
  | RResponse bool "string option" "string option"

datatype 'a outcome = Returns 'a | Throws string

text \<open>
  The context is one object shared by reference: a unit receives the heap and the address
  of the context object, and returns its result with the heap it leaves behind.
\<close>

type_synonym handler = "heap \<Rightarrow> addr \<Rightarrow> middleware_return outcome \<times> heap"

record NgxMiddleware =
  middlewareName :: "string option"
  invoke :: handler

text \<open>
  Modelled from the spec: \<^verbatim>\<open>createMiddleware\<close> (helpers/create-middleware) is not among
  the sources.  The spec describes a unit as a named function of the context, so the
  unit made from a name and a handler carries that name and runs that handler.
\<close>

definition createMiddleware :: "string \<Rightarrow> handler \<Rightarrow> NgxMiddleware" where
  "createMiddleware name fn = \<lparr> middlewareName = Some name, invoke = fn \<rparr>"

subsection \<open>Authentication middleware (lib/middlewares)\<close>

record AuthMiddlewareOptions =
  authPath :: "string option"
  requireUser :: "bool option"

definition auth_handler :: "string \<Rightarrow> bool \<Rightarrow> handler" where
  "auth_handler path req h context =
     (if req \<and> is_nullish (getValueByPath h (JRef context) ''user'')
      then (Returns (RBool False), h)
      else (Returns (RBool (truthy (getValueByPath h (JRef context) path))), h))"

definition createAuthMiddleware :: "AuthMiddlewareOptions \<Rightarrow> NgxMiddleware" where
  "createAuthMiddleware options =
     (let path = (case authPath options of Some p \<Rightarrow> p | None \<Rightarrow> ''user.isAuthenticated'');
          req = (case requireUser options of Some b \<Rightarrow> b | None \<Rightarrow> True)
      in createMiddleware ''auth'' (auth_handler path req))"

section \<open>Debug hook (lib/core)\<close>

subsection \<open>Sanitizing a context\<close>

text \<open>
  \<^verbatim>\<open>DEFAULT_SENSITIVE_FIELDS\<close> (helpers/constants) is not among the sources; the functions
  below take the list as the parameter \<open>sens\<close>.  \<^verbatim>\<open>SENSITIVE_KEYS.has(lowerKey)\<close> is
  membership of the lower-cased key in that list.

  \<^verbatim>\<open>filterSensitiveData\<close> builds its result in fresh objects: the object or array is
  allocated first, then filled entry by entry.  The two loops are the functions
  \<open>filter_items\<close> (the callback of \<^verbatim>\<open>obj.map\<close>) and \<open>filter_entries\<close>
  (the \<^verbatim>\<open>for ... of Object.entries(obj)\<close>), which write into the object at address \<open>r\<close>.
  A reference that is not in the heap does not occur in a JavaScript program; the model
  returns \<^verbatim>\<open>undefined\<close> for it.
\<close>

function filterSensitiveData :: "string list \<Rightarrow> heap \<Rightarrow> jsval \<Rightarrow> nat \<Rightarrow> nat \<Rightarrow> jsval \<times> heap"
  and filter_items :: "string list \<Rightarrow> heap \<Rightarrow> addr \<Rightarrow> jsval list \<Rightarrow> nat \<Rightarrow> nat \<Rightarrow> heap"
  and filter_entries :: "string list \<Rightarrow> heap \<Rightarrow> addr \<Rightarrow> (string \<times> jsval) list \<Rightarrow> nat \<Rightarrow> nat \<Rightarrow> heap"
where
  "filterSensitiveData sens h obj depth maxDepth =
     (if depth > maxDepth then (JStr ''[Max Depth Reached]'', h)
      else if obj = JNull \<or> obj = JUndefined then (obj, h)
      else if typeof obj \<noteq> TObject then (obj, h)
      else (case obj of
              JRef a \<Rightarrow>
                (case heap_lookup h a of
                   Some (JArray items) \<Rightarrow>
                     (let (r, h0) = alloc h (JArray [])
                      in (JRef r, filter_items sens h0 r items depth maxDepth))
                 | Some (JObject entries) \<Rightarrow>
                     (let (r, h0) = alloc h (JObject [])
                      in (JRef r, filter_entries sens h0 r entries depth maxDepth))
                 | None \<Rightarrow> (JUndefined, h))
            | _ \<Rightarrow> (obj, h)))"
| "filter_items sens h r [] depth maxDepth = h"
| "filter_items sens h r (item # items) depth maxDepth =
     (let (v, h') = filterSensitiveData sens h item (depth + 1) maxDepth
      in filter_items sens (push_item h' r v) r items depth maxDepth)"
| "filter_entries sens h r [] depth maxDepth = h"
| "filter_entries sens h r ((key, val) # entries) depth maxDepth =
     (if toLowerCase key \<in> set sens
      then filter_entries sens (assign_prop h r key (JStr ''[Filtered]'')) r entries depth maxDepth
      else if typeof val = TFunction
      then filter_entries sens (assign_prop h r key (JStr ''[Function]'')) r entries depth maxDepth
      else (let (v, h') = filterSensitiveData sens h val (depth + 1) maxDepth
            in filter_entries sens (assign_prop h' r key v) r entries depth maxDepth))"
  by pat_completeness auto

text \<open>
  Termination: every call from a loop goes one level deeper, and a call deeper than
  \<open>maxDepth\<close> returns at once, so \<open>maxDepth + 1 - depth\<close> decreases; inside a loop the
  list of remaining entries decreases.
\<close>

termination
  by (relation "inv_image (less_than <*lex*> less_than)
        (\<lambda>x. case x of
           Inl (sens, h, obj, depth, maxDepth) \<Rightarrow> (2 * (maxDepth + 1 - depth), 0)
         | Inr (Inl (sens, h, r, items, depth, maxDepth)) \<Rightarrow>
             (2 * (maxDepth - depth) + 1, length items)
         | Inr (Inr (sens, h, r, entries, depth, maxDepth)) \<Rightarrow>
             (2 * (maxDepth - depth) + 1, length entries))")
     auto

declare filterSensitiveData.simps [simp del]

text \<open>
  The own enumerable properties of a value, as \<^verbatim>\<open>Object.assign\<close> and object spread read
  them: the entries of a plain object, the indexed elements of an array, the indexed
  characters of a string, nothing for any other value.
\<close>

definition own_entries :: "heap \<Rightarrow> jsval \<Rightarrow> (string \<times> jsval) list" where
  "own_entries h v =
     (case v of
        JRef a \<Rightarrow>
          (case heap_lookup h a of
             Some (JObject es) \<Rightarrow> es
           | Some (JArray xs) \<Rightarrow> zip (map string_of_nat [0..<length xs]) xs
           | None \<Rightarrow> [])
      | JStr s \<Rightarrow> zip (map string_of_nat [0..<length s]) (map (\<lambda>c. JStr [c]) s)
      | _ \<Rightarrow> [])"

text \<open>\<^verbatim>\<open>Object.assign(target, source)\<close> for a target object at address \<open>r\<close>.\<close>

definition object_assign :: "heap \<Rightarrow> addr \<Rightarrow> jsval \<Rightarrow> heap" where
  "object_assign h r source = fold (\<lambda>(k, v) hh. assign_prop hh r k v) (own_entries h source) h"

text \<open>
  One of the four guarded copies at the start of \<^verbatim>\<open>sanitizeContext\<close>:
  \<^verbatim>\<open>if (context[key] && typeof context[key] === 'string') sanitized[key] = context[key]\<close>.
\<close>

definition copy_if_string :: "heap \<Rightarrow> addr \<Rightarrow> addr \<Rightarrow> string \<Rightarrow> heap" where
  "copy_if_string h context r key =
     (let v = get_prop h (JRef context) key
      in if truthy v \<and> typeof v = TString then assign_prop h r key v else h)"

definition sanitizeContext :: "string list \<Rightarrow> heap \<Rightarrow> addr \<Rightarrow> jsval \<times> heap" where
  "sanitizeContext sens h context =
     (let (r, h0) = alloc h (JObject []);
          h1 = copy_if_string h0 context r ''url'';
          h2 = copy_if_string h1 context r ''path'';
          h3 = copy_if_string h2 context r ''method'';
          h4 = copy_if_string h3 context r ''contextType'';
          (filtered, h5) = filterSensitiveData sens h4 (JRef context) 0 3;
          h6 = (if typeof filtered = TObject \<and> filtered \<noteq> JNull
                then object_assign h5 r filtered else h5)
      in (JRef r, h6))"

subsection \<open>Execution records and the execution store\<close>

datatype context_type = Route | Http

record MiddlewareExecutionRecord =
  mx_id :: string
  mx_timestamp :: int
  mx_middlewareName :: string
  middlewareIndex :: nat
  mx_contextType :: context_type
  mx_contextPath :: "string option"
  mx_chunkName :: "string option"
  mx_result :: bool
  duration :: int
  error :: "string option"
  sanitizedContext :: jsval

record ChainExecutionRecord =
  cx_id :: string
  cx_timestamp :: int
  cx_contextType :: context_type
  cx_contextPath :: "string option"
  cx_chunkName :: "string option"
  middlewareCount :: nat
  cx_result :: bool
  cx_stoppedAt :: int
  totalDuration :: int
  cx_redirect :: "string option"
  cx_middlewareExecutions :: "MiddlewareExecutionRecord list"

record ExecutionStore =
  chains :: "ChainExecutionRecord list"
  middlewareExecutions :: "MiddlewareExecutionRecord list"

definition maxRecords :: nat where
  "maxRecords = 100"

definition new_store :: ExecutionStore where
  "new_store = \<lparr> chains = [], middlewareExecutions = [] \<rparr>"

text \<open>\<^verbatim>\<open>push\<close>, then \<^verbatim>\<open>shift\<close> when the length exceeds \<open>maxRecords\<close>.\<close>

definition addChain :: "ExecutionStore \<Rightarrow> ChainExecutionRecord \<Rightarrow> ExecutionStore" where
  "addChain s chain =
     (let pushed = chains s @ [chain]
      in s\<lparr> chains := (if length pushed > maxRecords then tl pushed else pushed) \<rparr>)"

definition addMiddlewareExecution ::
  "ExecutionStore \<Rightarrow> MiddlewareExecutionRecord \<Rightarrow> ExecutionStore" where
  "addMiddlewareExecution s execution =
     (let pushed = middlewareExecutions s @ [execution]
      in s\<lparr> middlewareExecutions :=
             (if length pushed > maxRecords then tl pushed else pushed) \<rparr>)"

definition getChains :: "ExecutionStore \<Rightarrow> ChainExecutionRecord list" where
  "getChains s = chains s"

definition getMiddlewareExecutions :: "ExecutionStore \<Rightarrow> MiddlewareExecutionRecord list" where
  "getMiddlewareExecutions s = middlewareExecutions s"


definition clear :: "ExecutionStore \<Rightarrow> ExecutionStore" where
  "clear s = s\<lparr> chains := [], middlewareExecutions := [] \<rparr>"

text \<open>The operations that change the store, and a run of them from a given store.\<close>

datatype store_op =
    AddChain ChainExecutionRecord
  | AddMiddlewareExecution MiddlewareExecutionRecord
  | Clear

fun apply_store_op :: "ExecutionStore \<Rightarrow> store_op \<Rightarrow> ExecutionStore" where
  "apply_store_op s (AddChain c) = addChain s c"
| "apply_store_op s (AddMiddlewareExecution e) = addMiddlewareExecution s e"
| "apply_store_op s Clear = clear s"

definition run_store_ops :: "store_op list \<Rightarrow> ExecutionStore \<Rightarrow> ExecutionStore" where
  "run_store_ops ops s = foldl apply_store_op s ops"

subsection \<open>The debug hook\<close>





subsection \<open>Recording\<close>

text \<open>
  What the recording functions read from their surroundings: \<^verbatim>\<open>process.env.NODE_ENV\<close>
  (\<open>None\<close> when there is no \<^verbatim>\<open>process.env\<close>, \<open>Some None\<close> when the variable is unset),
  whether \<^verbatim>\<open>window\<close> is defined, the clock \<^verbatim>\<open>Date.now()\<close> and the random suffix of
  a record id.
\<close>

record environment =
  node_env :: "string option option"
  has_window :: bool
  now :: nat
  random_suffix :: string

definition isDevelopment :: "environment \<Rightarrow> bool" where
  "isDevelopment env =
     (case node_env env of
        Some v \<Rightarrow> v \<noteq> Some ''production''
      | None \<Rightarrow> True)"

text \<open>
  The type \<^verbatim>\<open>DebugOptions\<close> is declared outside the sources; these are the four fields the
  recording functions read.  The context is an object, given by its address.
\<close>

record DebugOptions =
  contextType :: context_type
  contextPath :: "string option"
  chunkName :: "string option"
  context_obj :: addr

definition getMiddlewareName :: "NgxMiddleware \<Rightarrow> nat \<Rightarrow> string" where
  "getMiddlewareName middleware index =
     (case middlewareName middleware of
        Some n \<Rightarrow> (if n \<noteq> [] then n else ''Middleware['' @ string_of_nat index @ '']'')
      | None \<Rightarrow> ''Middleware['' @ string_of_nat index @ '']'')"

text \<open>
  \<^verbatim>\<open>recordMiddlewareExecution\<close> returns nothing; its effects are on the store and, through
  the snapshot it allocates, on the heap.  The \<open>error\<close> argument is given by its
  \<^verbatim>\<open>String(error)\<close> rendering, \<open>None\<close> for \<^verbatim>\<open>undefined\<close>.
\<close>

definition recordMiddlewareExecution ::
  "environment \<Rightarrow> string list \<Rightarrow> ExecutionStore \<Rightarrow> heap \<Rightarrow> DebugOptions \<Rightarrow> NgxMiddleware \<Rightarrow>
   nat \<Rightarrow> int \<Rightarrow> int \<Rightarrow> bool \<Rightarrow> string option \<Rightarrow> ExecutionStore \<times> heap" where
  "recordMiddlewareExecution env sens store h options middleware index startTime endTime
     result err =
     (if \<not> isDevelopment env \<or> \<not> has_window env then (store, h)
      else
        (let (snapshot, h') = sanitizeContext sens h (context_obj options);
             execution = \<lparr>
               mx_id = string_of_nat (now env) @ ''-'' @ string_of_nat index @ ''-''
                         @ random_suffix env,
               mx_timestamp = startTime,
               mx_middlewareName = getMiddlewareName middleware index,
               middlewareIndex = index,
               mx_contextType = contextType options,
               mx_contextPath = contextPath options,
               mx_chunkName = chunkName options,
               mx_result = result,
               duration = endTime - startTime,
               error = err,
               sanitizedContext = snapshot \<rparr>
         in (addMiddlewareExecution store execution, h')))"

text \<open>
  The chain verdict handed to \<^verbatim>\<open>recordChainExecution\<close>; of the type
  \<^verbatim>\<open>MiddlewareResult\<close> the function reads these three fields.
\<close>

record MiddlewareResult =
  result :: bool
  stoppedAt :: int
  redirect :: "string option"



section \<open>Extension registry (lib/extensions/extension.registry)\<close>

text \<open>
  The registry does not look into the middleware an extension registers, so the type of
  these items is a parameter \<open>'m\<close>.  An extension is given by what its
  \<^verbatim>\<open>initialize(context)\<close> does with the registration context (the calls it makes, in order)
  and how it ends (it returns an array, returns something that is not an array, or
  throws), and by its optional \<^verbatim>\<open>destroy\<close>.  The two JavaScript maps keep insertion order
  and are association lists.  The configuration accessors of the context only read.
\<close>

datatype 'm ext_call =
    RegisterPre "'m list"
  | RegisterPost "'m list"
  | RegisterMerged "'m list"

record 'm GatekeeperExtension =
  ext_id :: string
  init_calls :: "'m ext_call list"
  init_result :: "'m list option outcome"
  destroy :: "unit outcome option"

record 'm ExtensionRegistration =
  extension :: "'m GatekeeperExtension"
  success :: bool
  reg_error :: "string option"
  registeredMiddleware :: "'m list"

record 'm ExtensionRegistry =
  extensions :: "(string \<times> 'm GatekeeperExtension) list"
  registrations :: "(string \<times> 'm ExtensionRegistration) list"
  preMiddleware :: "'m list"
  postMiddleware :: "'m list"
  mergedMiddleware :: "'m list"

definition new_registry :: "'m ExtensionRegistry" where
  "new_registry = \<lparr> extensions = [], registrations = [], preMiddleware = [],
                     postMiddleware = [], mergedMiddleware = [] \<rparr>"

text \<open>The three registration functions of the extension context: each one is a \<^verbatim>\<open>push\<close>.\<close>

fun apply_call :: "'m ExtensionRegistry \<Rightarrow> 'm ext_call \<Rightarrow> 'm ExtensionRegistry" where
  "apply_call reg (RegisterPre ms) = reg\<lparr> preMiddleware := preMiddleware reg @ ms \<rparr>"
| "apply_call reg (RegisterPost ms) = reg\<lparr> postMiddleware := postMiddleware reg @ ms \<rparr>"
| "apply_call reg (RegisterMerged ms) = reg\<lparr> mergedMiddleware := mergedMiddleware reg @ ms \<rparr>"

definition already_registered_message :: "string \<Rightarrow> string" where
  \<open>already_registered_message i = ''Extension with id "'' @ i @ ''" is already registered''\<close>

definition register ::
  "'m ExtensionRegistry \<Rightarrow> 'm GatekeeperExtension \<Rightarrow>
   'm ExtensionRegistration \<times> 'm ExtensionRegistry" where
  "register reg ext =
     (if ext_id ext \<in> set (map fst (extensions reg))
      then (\<lparr> extension = ext, success = False,
               reg_error = Some (already_registered_message (ext_id ext)),
               registeredMiddleware = [] \<rparr>, reg)
      else
        (let reg1 = foldl apply_call reg (init_calls ext)
         in (case init_result ext of
               Throws msg \<Rightarrow>
                 (\<lparr> extension = ext, success = False, reg_error = Some msg,
                    registeredMiddleware = [] \<rparr>, reg1)
             | Returns middleware \<Rightarrow>
                 (let middlewareArray = (case middleware of Some ms \<Rightarrow> ms | None \<Rightarrow> []);
                      registration = \<lparr> extension = ext, success = True, reg_error = None,
                                       registeredMiddleware = middlewareArray \<rparr>
                  in (registration,
                      reg1\<lparr> extensions := AList.update (ext_id ext) ext (extensions reg1),
                            registrations :=
                              AList.update (ext_id ext) registration (registrations reg1) \<rparr>)))))"

definition unregister :: "'m ExtensionRegistry \<Rightarrow> string \<Rightarrow> bool \<times> 'm ExtensionRegistry" where
  "unregister reg extensionId =
     (case map_of (extensions reg) extensionId of
        None \<Rightarrow> (False, reg)
      | Some ext \<Rightarrow>
          (case destroy ext of
             Some (Throws e) \<Rightarrow> (False, reg)
           | _ \<Rightarrow>
               (True, reg\<lparr> extensions := AList.delete extensionId (extensions reg),
                           registrations := AList.delete extensionId (registrations reg),
                           preMiddleware := [],
                           postMiddleware := [],
                           mergedMiddleware := [] \<rparr>)))"

definition getExtensions :: "'m ExtensionRegistry \<Rightarrow> 'm GatekeeperExtension list" where
  "getExtensions reg = map snd (extensions reg)"

definition getRegistration ::
  "'m ExtensionRegistry \<Rightarrow> string \<Rightarrow> 'm ExtensionRegistration option" where
  "getRegistration reg extensionId = map_of (registrations reg) extensionId"

definition getPreMiddleware :: "'m ExtensionRegistry \<Rightarrow> 'm list" where
  "getPreMiddleware reg = preMiddleware reg"

definition getPostMiddleware :: "'m ExtensionRegistry \<Rightarrow> 'm list" where
  "getPostMiddleware reg = postMiddleware reg"

definition getMergedMiddleware :: "'m ExtensionRegistry \<Rightarrow> 'm list" where
  "getMergedMiddleware reg = mergedMiddleware reg"

text \<open>A sequence of registry operations, run in order.\<close>

datatype 'm registry_op = Register "'m GatekeeperExtension" | Unregister string

fun apply_registry_op :: "'m ExtensionRegistry \<Rightarrow> 'm registry_op \<Rightarrow> 'm ExtensionRegistry" where
  "apply_registry_op reg (Register ext) = snd (register reg ext)"
| "apply_registry_op reg (Unregister i) = snd (unregister reg i)"

definition run_registry_ops ::
  "'m registry_op list \<Rightarrow> 'm ExtensionRegistry \<Rightarrow> 'm ExtensionRegistry" where
  "run_registry_ops ops reg = foldl apply_registry_op reg ops"

text \<open>The units an extension pushes to the pre-list while it initializes.\<close>

fun pre_units :: "'m ext_call list \<Rightarrow> 'm list" where
  "pre_units [] = []"
| "pre_units (RegisterPre ms # cs) = ms @ pre_units cs"
| "pre_units (_ # cs) = pre_units cs"

fun post_units :: "'m ext_call list \<Rightarrow> 'm list" where
  "post_units [] = []"
| "post_units (RegisterPost ms # cs) = ms @ post_units cs"
| "post_units (_ # cs) = post_units cs"

fun merged_units :: "'m ext_call list \<Rightarrow> 'm list" where
  "merged_units [] = []"
| "merged_units (RegisterMerged ms # cs) = ms @ merged_units cs"
| "merged_units (_ # cs) = merged_units cs"

section \<open>Security headers (lib/security-headers/security-headers.middleware)\<close>

definition SECURITY_HEADERS_KEY :: string where
  "SECURITY_HEADERS_KEY = ''_securityHeaders''"

text \<open>
  A configured header value is a string or a function returning one; a function is given
  by what its call does, return a string or throw.
\<close>

datatype header_value = StaticHeader string | ComputedHeader "string outcome"

record SecurityHeadersConfig =
  headers :: "(string \<times> header_value) list"
  overwrite :: "bool option"

text \<open>
  The loop resolving the header values into the object at address \<open>r\<close>.  A function that
  throws is caught (and a warning logged): nothing is written for that header.
\<close>

fun resolve_headers :: "heap \<Rightarrow> addr \<Rightarrow> (string \<times> header_value) list \<Rightarrow> heap" where
  "resolve_headers h r [] = h"
| "resolve_headers h r ((key, StaticHeader s) # rest) =
     resolve_headers (assign_prop h r key (JStr s)) r rest"
| "resolve_headers h r ((key, ComputedHeader (Returns s)) # rest) =
     resolve_headers (assign_prop h r key (JStr s)) r rest"
| "resolve_headers h r ((key, ComputedHeader (Throws e)) # rest) =
     resolve_headers h r rest"

text \<open>
  The object spread \<^verbatim>\<open>{ ...a, ...b }\<close> is a fresh object that receives the own entries of
  \<open>a\<close>, then those of \<open>b\<close>.
\<close>

definition securityHeaders_handler :: "SecurityHeadersConfig \<Rightarrow> handler" where
  "securityHeaders_handler config h context =
     (let ow = (case overwrite config of Some b \<Rightarrow> b | None \<Rightarrow> False);
          (resolvedHeaders, h1) = alloc h (JObject []);
          h2 = resolve_headers h1 resolvedHeaders (headers config);
          existingEntry = get_prop h2 (JRef context) SECURITY_HEADERS_KEY
      in if truthy existingEntry
         then
           (let existingHeaders = get_prop h2 existingEntry ''headers'';
                (mergedHeaders, h3) = alloc h2 (JObject []);
                h4 = (if ow
                      then object_assign (object_assign h3 mergedHeaders existingHeaders)
                             mergedHeaders (JRef resolvedHeaders)
                      else object_assign (object_assign h3 mergedHeaders (JRef resolvedHeaders))
                             mergedHeaders existingHeaders);
                mergedOverwrite =
                  (if ow then JBool True else get_prop h4 existingEntry ''overwrite'');
                (entry, h5) = alloc h4 (JObject [(''headers'', JRef mergedHeaders),
                                                 (''overwrite'', mergedOverwrite)])
            in (Returns (RBool True), assign_prop h5 context SECURITY_HEADERS_KEY (JRef entry)))
         else
           (let (entry, h3) = alloc h2 (JObject [(''headers'', JRef resolvedHeaders),
                                                 (''overwrite'', JBool ow)])
            in (Returns (RBool True), assign_prop h3 context SECURITY_HEADERS_KEY (JRef entry))))"

definition securityHeadersMiddleware :: "SecurityHeadersConfig \<Rightarrow> NgxMiddleware" where
  "securityHeadersMiddleware config =
     createMiddleware ''security-headers'' (securityHeaders_handler config)"

section \<open>Chain executor\<close>

text \<open>
  Modelled from the spec: the chain executor (the middleware runner of the core) is not
  among the sources.  The spec gives it as a state machine over the ordered unit list:
  start at index 0; invoke the unit at the index with the shared context; when the result
  denies (\<^verbatim>\<open>false\<close> or \<^verbatim>\<open>{allow:false,...}\<close>) stop, record \<open>stoppedAt\<close> as that index and
  take over redirect and reason; when it allows, go to the next index and end allowed
  after the last; when the unit throws, stop with an implicit deny without redirect and
  record the fault (as a deny, with the index of the unit).  Asynchronous units are
  awaited one after the other, so a unit is given by its settled outcome.  The result
  carries one execution record for each unit that was invoked, in order.  For a run that
  ends allowed the spec leaves \<open>stoppedAt\<close> open (\<^verbatim>\<open>undefined-or-length\<close>); the model has
  no index there.  Wall-clock timing is left out.
\<close>

fun denies :: "middleware_return \<Rightarrow> bool" where
  "denies (RBool b) = (\<not> b)"
| "denies (RResponse a _ _) = (\<not> a)"

fun redirect_of :: "middleware_return \<Rightarrow> string option" where
  "redirect_of (RBool _) = None"
| "redirect_of (RResponse _ rd _) = rd"

fun reason_of :: "middleware_return \<Rightarrow> string option" where
  "reason_of (RBool _) = None"
| "reason_of (RResponse _ _ rs) = rs"

record UnitExecution =
  unit_name :: "string option"
  unit_index :: nat
  unit_allowed :: bool
  unit_error :: "string option"

record ChainResult =
  allowed :: bool
  chain_redirect :: "string option"
  chain_reason :: "string option"
  chain_stoppedAt :: "nat option"
  trace :: "UnitExecution list"

fun run_chain ::
  "NgxMiddleware list \<Rightarrow> nat \<Rightarrow> UnitExecution list \<Rightarrow> heap \<Rightarrow> addr \<Rightarrow> ChainResult \<times> heap" where
  "run_chain [] i recs h ctx =
     (\<lparr> allowed = True, chain_redirect = None, chain_reason = None,
        chain_stoppedAt = None, trace = recs \<rparr>, h)"
| "run_chain (u # us) i recs h ctx =
     (case invoke u h ctx of
        (Throws e, h') \<Rightarrow>
          (\<lparr> allowed = False, chain_redirect = None, chain_reason = None,
             chain_stoppedAt = Some i,
             trace = recs @ [\<lparr> unit_name = middlewareName u, unit_index = i,
                               unit_allowed = False, unit_error = Some e \<rparr>] \<rparr>, h')
      | (Returns r, h') \<Rightarrow>
          (if denies r
           then (\<lparr> allowed = False, chain_redirect = redirect_of r,
                   chain_reason = reason_of r, chain_stoppedAt = Some i,
                   trace = recs @ [\<lparr> unit_name = middlewareName u, unit_index = i,
                                     unit_allowed = False, unit_error = None \<rparr>] \<rparr>, h')
           else run_chain us (Suc i)
                  (recs @ [\<lparr> unit_name = middlewareName u, unit_index = i,
                              unit_allowed = True, unit_error = None \<rparr>]) h' ctx))"

definition execute :: "NgxMiddleware list \<Rightarrow> heap \<Rightarrow> addr \<Rightarrow> ChainResult \<times> heap" where
  "execute units h ctx = run_chain units 0 [] h ctx"

text \<open>The heap that the unit at position \<open>i\<close> is invoked with, when all units before it run.\<close>

fun heap_before :: "NgxMiddleware list \<Rightarrow> heap \<Rightarrow> addr \<Rightarrow> nat \<Rightarrow> heap" where
  "heap_before us h ctx 0 = h"
| "heap_before [] h ctx (Suc i) = h"
| "heap_before (u # us) h ctx (Suc i) = heap_before us (snd (invoke u h ctx)) ctx i"

definition unit_allows :: "NgxMiddleware \<Rightarrow> heap \<Rightarrow> addr \<Rightarrow> bool" where
  "unit_allows u h ctx = (case fst (invoke u h ctx) of Returns r \<Rightarrow> \<not> denies r | Throws e \<Rightarrow> False)"

definition unit_denies :: "NgxMiddleware \<Rightarrow> heap \<Rightarrow> addr \<Rightarrow> bool" where
  "unit_denies u h ctx = (case fst (invoke u h ctx) of Returns r \<Rightarrow> denies r | Throws e \<Rightarrow> False)"

section \<open>Notions used in the statements\<close>

text \<open>A scalar: \<^verbatim>\<open>undefined\<close>, \<^verbatim>\<open>null\<close>, a boolean, a number or a string.\<close>

fun is_scalar :: "jsval \<Rightarrow> bool" where
  "is_scalar (JFunction _) = False"
| "is_scalar (JRef _) = False"
| "is_scalar _ = True"

text \<open>
  What \<^verbatim>\<open>filterSensitiveData\<close>, at depth \<open>d\<close> with maximum \<open>m\<close>, writes for the entry
  \<open>(k, v)\<close> of an object: \<open>x\<close> is that value in the four cases where it does not depend
  on the heap.
\<close>

definition entry_ok :: "string list \<Rightarrow> nat \<Rightarrow> nat \<Rightarrow> string \<Rightarrow> jsval \<Rightarrow> jsval \<Rightarrow> bool" where
  "entry_ok sens d m k v x =
     ((toLowerCase k \<in> set sens \<longrightarrow> x = JStr ''[Filtered]'')
      \<and> (toLowerCase k \<notin> set sens \<and> typeof v = TFunction \<longrightarrow> x = JStr ''[Function]'')
      \<and> (toLowerCase k \<notin> set sens \<and> is_scalar v \<and> d < m \<longrightarrow> x = v)
      \<and> (toLowerCase k \<notin> set sens \<and> typeof v \<noteq> TFunction \<and> m \<le> d \<longrightarrow>
            x = JStr ''[Max Depth Reached]''))"

text \<open>
  A path of keys that the sanitizer follows to the end: starting from the value, every
  key is an own key of a plain object and not a sensitive one, or an index of an array.
  The objects on the path have distinct keys, as every JavaScript object has.
\<close>

fun clear_path :: "string list \<Rightarrow> heap \<Rightarrow> jsval \<Rightarrow> string list \<Rightarrow> bool" where
  "clear_path sens h v [] = True"
| "clear_path sens h v (k # ks) =
     (case v of
        JRef a \<Rightarrow>
          (case heap_lookup h a of
             Some (JObject es) \<Rightarrow>
               distinct (map fst es) \<and> k \<in> fst ` set es \<and> toLowerCase k \<notin> set sens
               \<and> clear_path sens h (object_prop es k) ks
           | Some (JArray xs) \<Rightarrow>
               (case parse_index k of
                  Some i \<Rightarrow> i < length xs \<and> clear_path sens h (xs ! i) ks
                | None \<Rightarrow> False)
           | None \<Rightarrow> False)
      | _ \<Rightarrow> False)"

text \<open>A key that equals an entry of the sensitive list when letter case is ignored.\<close>

definition matches_sensitive :: "string list \<Rightarrow> string \<Rightarrow> bool" where
  "matches_sensitive sens key = (toLowerCase key \<in> toLowerCase ` set sens)"

text \<open>
  The references an object holds, and the property that no object at an address from
  \<open>n\<close> on holds a reference to an address below \<open>n\<close>: the objects allocated since
  the heap had size \<open>n\<close> share nothing with the objects that were there.
\<close>

fun val_refs :: "jsval \<Rightarrow> addr list" where
  "val_refs (JRef a) = [a]"
| "val_refs _ = []"

fun obj_refs :: "jsobj \<Rightarrow> addr list" where
  "obj_refs (JArray xs) = concat (map val_refs xs)"
| "obj_refs (JObject es) = concat (map (\<lambda>(k, v). val_refs v) es)"


text \<open>
  A heap in which every reference held by an object points to an object of the heap, as
  in any JavaScript program; and a value that, if it is a reference, points into the heap.
\<close>

definition heap_closed :: "heap \<Rightarrow> bool" where
  "heap_closed h = list_all (\<lambda>ob. list_all (\<lambda>b. b < length h) (obj_refs ob)) h"

definition in_heap :: "heap \<Rightarrow> jsval \<Rightarrow> bool" where
  "in_heap h v = (case v of JRef a \<Rightarrow> a < length h | _ \<Rightarrow> True)"

fun is_register :: "'m registry_op \<Rightarrow> bool" where
  "is_register (Register _) = True"
| "is_register (Unregister _) = False"

text \<open>
  What the loop of the security-headers unit leaves in the resolved object, entry by
  entry: a string for a static value or a function that returns, nothing for a function
  that throws.
\<close>

fun resolved_entries :: "(string \<times> header_value) list \<Rightarrow> (string \<times> jsval) list" where
  "resolved_entries [] = []"
| "resolved_entries ((key, StaticHeader s) # rest) = (key, JStr s) # resolved_entries rest"
| "resolved_entries ((key, ComputedHeader (Returns s)) # rest) =
     (key, JStr s) # resolved_entries rest"
| "resolved_entries ((key, ComputedHeader (Throws e)) # rest) = resolved_entries rest"

section \<open>Example inputs\<close>

text \<open>
  The objects of the tests of \<^verbatim>\<open>getValueByPath\<close>, in one heap at address 0:
  \<^verbatim>\<open>{user: {profile: {name: 'John'}, nick: 'John'}, users: [{name: 'John'}, {name: 'Jane'}]}\<close>.
\<close>

definition heap_profile :: heap where
  "heap_profile =
     [JObject [(''user'', JRef 1), (''users'', JRef 3)],
      JObject [(''profile'', JRef 2), (''nick'', JStr ''John'')],
      JObject [(''name'', JStr ''John'')],
      JArray [JRef 2, JRef 4],
      JObject [(''name'', JStr ''Jane'')]]"

text \<open>The context \<^verbatim>\<open>{user: {isAuthenticated: false}}\<close>, at address 0, and its granted twin.\<close>

definition heap_auth_denied :: heap where
  "heap_auth_denied =
     [JObject [(''user'', JRef 1)], JObject [(''isAuthenticated'', JBool False)]]"

definition heap_auth_granted :: heap where
  "heap_auth_granted =
     [JObject [(''user'', JRef 1)], JObject [(''isAuthenticated'', JBool True)]]"

text \<open>The context \<^verbatim>\<open>{user: {password: 'secret123', id: 'u1'}}\<close>, at address 0.\<close>

definition heap_user :: heap where
  "heap_user =
     [JObject [(''user'', JRef 1)],
      JObject [(''password'', JStr ''secret123''), (''id'', JStr ''u1'')]]"

text \<open>A debug environment (development build, in a browser) and the options of a run.\<close>

definition env_debug :: environment where
  "env_debug = \<lparr> node_env = Some (Some ''development''), has_window = True,
                  now = 1700000000000, random_suffix = ''k3x9q2m1z'' \<rparr>"

definition options_user :: DebugOptions where
  "options_user = \<lparr> contextType = Route, contextPath = Some ''/admin'', chunkName = None,
                     context_obj = 0 \<rparr>"

text \<open>
  Three object graphs for the sanitizer: a cyclic one (an object that contains itself and
  an array that contains the object), an object with two function-valued entries, and
  \<^verbatim>\<open>{a: {b: {c: {f: function, n: 5}}}}\<close>, whose innermost entries are at depth 4.
\<close>

definition heap_cyclic :: heap where
  "heap_cyclic = [JObject [(''self'', JRef 0), (''list'', JRef 1)], JArray [JRef 0, JFunction 7]]"

definition heap_handlers :: heap where
  "heap_handlers = [JObject [(''onClick'', JFunction 0), (''password'', JFunction 1)]]"

definition heap_deep :: heap where
  "heap_deep =
     [JObject [(''a'', JRef 1)], JObject [(''b'', JRef 2)], JObject [(''c'', JRef 3)],
      JObject [(''f'', JFunction 0), (''n'', JNum 5)]]"

text \<open>
  The context \<^verbatim>\<open>{apiKey: 'k1', a: {b: {c: {n: 5, d: {password: 'secret123'}}}}}\<close>, at
  address 0: \<^verbatim>\<open>n\<close> is four levels below the context, \<^verbatim>\<open>password\<close> five.
\<close>

definition heap_nested :: heap where
  "heap_nested =
     [JObject [(''apiKey'', JStr ''k1''), (''a'', JRef 1)],
      JObject [(''b'', JRef 2)],
      JObject [(''c'', JRef 3)],
      JObject [(''n'', JNum 5), (''d'', JRef 4)],
      JObject [(''password'', JStr ''secret123'')]]"


text \<open>Two extensions that each register one pre-unit; units are numbered.\<close>

definition ext_a :: "nat GatekeeperExtension" where
  "ext_a = \<lparr> ext_id = ''a'', init_calls = [RegisterPre [1]], init_result = Returns (Some [1]),
             destroy = None \<rparr>"

definition ext_b :: "nat GatekeeperExtension" where
  "ext_b = \<lparr> ext_id = ''b'', init_calls = [RegisterPre [2]], init_result = Returns (Some [2]),
             destroy = None \<rparr>"

text \<open>
  The context of the test that merges headers,
  \<^verbatim>\<open>{contextType: 'http', _securityHeaders: {headers: {'X-Existing': 'value'}, overwrite: false}}\<close>,
  and a configuration with a static header and a header function that throws.
\<close>

definition heap_headers :: heap where
  "heap_headers =
     [JObject [(''contextType'', JStr ''http''), (''_securityHeaders'', JRef 1)],
      JObject [(''headers'', JRef 2), (''overwrite'', JBool False)],
      JObject [(''X-Existing'', JStr ''value'')]]"

definition config_frame :: SecurityHeadersConfig where
  "config_frame =
     \<lparr> headers = [(''X-Frame-Options'', StaticHeader ''SAMEORIGIN''),
                   (''X-Request-Id'', ComputedHeader (Throws ''no request id''))],
       overwrite = Some True \<rparr>"

text \<open>
  Units for a chain \<^verbatim>\<open>[allow, allow, deny, allow]\<close>.  The last unit allows and leaves a
  mark in the context, so that a run in which it was invoked can be told from one in
  which it was not.
\<close>

definition unit_allow :: NgxMiddleware where
  "unit_allow = createMiddleware ''allow'' (\<lambda>h ctx. (Returns (RBool True), h))"

definition unit_deny :: NgxMiddleware where
  "unit_deny = createMiddleware ''deny'' (\<lambda>h ctx. (Returns (RBool False), h))"

definition unit_mark :: NgxMiddleware where
  "unit_mark = createMiddleware ''mark''
     (\<lambda>h ctx. (Returns (RBool True), assign_prop h ctx ''visited'' (JBool True)))"

definition example_chain :: "NgxMiddleware list" where
  "example_chain = [unit_allow, unit_allow, unit_deny, unit_mark]"

section \<open>Properties of the object utilities\<close>

lemmas prop_defs =
  get_prop_def heap_lookup_def object_prop_def array_prop_def parse_index_def is_digit_def
  digits_value_def

lemma split_dot_not_Nil: "split_dot s \<noteq> []"
  by (induction s) (auto split: list.splits)

lemma split_dot_append: "split_dot (p @ CHR ''.'' # q) = split_dot p @ split_dot q"
  by (induction p) (auto split: list.splits simp: split_dot_not_Nil)

lemma split_dot_single: "CHR ''.'' \<notin> set k \<Longrightarrow> split_dot k = [k]"
  by (induction k) (auto split: list.splits)

lemma walk_keys_append: "walk_keys h v (ks @ ks') = walk_keys h (walk_keys h v ks) ks'"
proof (induction ks arbitrary: v)
  case Nil
  show ?case by simp
next
  case (Cons k ks)
  show ?case
  proof (cases "is_nullish v \<or> typeof v \<noteq> TObject")
    case True
    then show ?thesis by (cases ks') auto
  next
    case False
    then show ?thesis using Cons.IH by simp
  qed
qed

lemma getValueByPath_not_object:
  "is_nullish v \<or> typeof v \<noteq> TObject \<Longrightarrow> getValueByPath h v path = JUndefined"
  unfolding getValueByPath_def using split_dot_not_Nil [of path]
  by (cases "split_dot path") auto

text \<open>
  Claim C8.  \<^verbatim>\<open>getValueByPath\<close> is a total function (a structural recursion over the keys
  of the path, with no failing branch), and it is the traversal of the path: on a value
  that is null, undefined or not an object it returns \<^verbatim>\<open>undefined\<close> for every path; on
  an object and a single key it returns that property; on a path \<open>p.q\<close> it returns
  what the path \<open>q\<close> gives from the value reached by \<open>p\<close>, so that it is
  \<^verbatim>\<open>undefined\<close> as soon as the value reached by \<open>p\<close> is null or not an object.
\<close>

theorem getValueByPath_total_safe:
  "(is_nullish v \<or> typeof v \<noteq> TObject \<longrightarrow> getValueByPath h v path = JUndefined)
   \<and> (\<not> is_nullish v \<and> typeof v = TObject \<and> CHR ''.'' \<notin> set key \<longrightarrow>
        getValueByPath h v key = get_prop h v key)
   \<and> getValueByPath h v (p @ ''.'' @ q) = getValueByPath h (getValueByPath h v p) q
   \<and> (is_nullish (getValueByPath h v p) \<or> typeof (getValueByPath h v p) \<noteq> TObject \<longrightarrow>
        getValueByPath h v (p @ ''.'' @ q) = JUndefined)"
proof -
  have step: "getValueByPath h v (p @ ''.'' @ q) = getValueByPath h (getValueByPath h v p) q"
    by (simp add: getValueByPath_def split_dot_append walk_keys_append)
  have one: "\<not> is_nullish v \<and> typeof v = TObject \<and> CHR ''.'' \<notin> set key \<longrightarrow>
        getValueByPath h v key = get_prop h v key"
    by (simp add: getValueByPath_def split_dot_single)
  show ?thesis
    using step one getValueByPath_not_object by simp
qed

theorem getValueByPath_total_safe_witness:
  "getValueByPath heap_profile JNull ''user.profile.name'' = JUndefined
   \<and> getValueByPath heap_profile (JRef 0) ''user'' = JRef 1
   \<and> getValueByPath heap_profile (JRef 0) ''user.profile.name'' = JStr ''John''
   \<and> getValueByPath heap_profile (JRef 0) ''user.nick.name'' = JUndefined
   \<and> getValueByPath heap_profile (JRef 0) ''users.1.name'' = JStr ''Jane''
   \<and> getValueByPath heap_profile (JRef 0) ''user.profile.age'' = JUndefined"
proof -
  have a: "getValueByPath heap_profile JNull ''user.profile.name'' = JUndefined"
    using getValueByPath_total_safe [of JNull heap_profile "''user.profile.name''"] by simp
  have b: "getValueByPath heap_profile (JRef 0) ''user'' = JRef 1"
    using getValueByPath_total_safe [of "JRef 0" heap_profile _ "''user''"]
    by (simp add: heap_profile_def prop_defs)
  have nick: "getValueByPath heap_profile (JRef 0) ''user.nick'' = JStr ''John''"
    by (simp add: getValueByPath_def heap_profile_def prop_defs)
  have d: "getValueByPath heap_profile (JRef 0) ''user.nick.name'' = JUndefined"
  proof -
    from getValueByPath_total_safe [of "JRef 0" heap_profile _ _ "''user.nick''" "''name''"]
    have "is_nullish (getValueByPath heap_profile (JRef 0) ''user.nick'')
          \<or> typeof (getValueByPath heap_profile (JRef 0) ''user.nick'') \<noteq> TObject \<longrightarrow>
          getValueByPath heap_profile (JRef 0) (''user.nick'' @ ''.'' @ ''name'') = JUndefined"
      by blast
    with nick show ?thesis by simp
  qed
  have c: "getValueByPath heap_profile (JRef 0) ''user.profile.name'' = JStr ''John''"
    by (simp add: getValueByPath_def heap_profile_def prop_defs)
  have e: "getValueByPath heap_profile (JRef 0) ''users.1.name'' = JStr ''Jane''"
    by (simp add: getValueByPath_def heap_profile_def prop_defs)
  have f: "getValueByPath heap_profile (JRef 0) ''user.profile.age'' = JUndefined"
    by (simp add: getValueByPath_def heap_profile_def prop_defs)
  from a b c d e f show ?thesis by simp
qed

section \<open>Properties of the authentication middleware\<close>

text \<open>
  Claim C7.  The unit made by \<^verbatim>\<open>createAuthMiddleware\<close> with the path
  \<^verbatim>\<open>user.isAuthenticated\<close>, run on the context \<^verbatim>\<open>{user: {isAuthenticated: false}}\<close>,
  returns the plain boolean \<^verbatim>\<open>false\<close> (not a structured response, so no redirect) and
  leaves the heap as it was.  In general, for any options, when the value at \<^verbatim>\<open>user\<close> is
  neither null nor undefined the unit returns the boolean \<^verbatim>\<open>Boolean(v)\<close> of the value
  \<open>v\<close> at the configured path.
\<close>

theorem auth_middleware_boolean:
  "invoke (createAuthMiddleware \<lparr> authPath = Some ''user.isAuthenticated'', requireUser = req \<rparr>)
      heap_auth_denied 0 = (Returns (RBool False), heap_auth_denied)
   \<and> (\<not> is_nullish (getValueByPath h (JRef ctx) ''user'') \<longrightarrow>
        invoke (createAuthMiddleware options) h ctx =
          (Returns (RBool (truthy (getValueByPath h (JRef ctx)
              (case authPath options of Some p \<Rightarrow> p | None \<Rightarrow> ''user.isAuthenticated'')))), h))"
  by (simp add: createAuthMiddleware_def createMiddleware_def auth_handler_def Let_def
      getValueByPath_def heap_auth_denied_def prop_defs)

theorem auth_middleware_boolean_witness:
  "\<not> is_nullish (getValueByPath heap_auth_granted (JRef 0) ''user'')
   \<and> invoke (createAuthMiddleware \<lparr> authPath = None, requireUser = None \<rparr>) heap_auth_granted 0 =
       (Returns (RBool True), heap_auth_granted)
   \<and> invoke (createAuthMiddleware \<lparr> authPath = None, requireUser = None \<rparr>) heap_auth_denied 0 =
       (Returns (RBool False), heap_auth_denied)"
proof -
  have user: "\<not> is_nullish (getValueByPath heap_auth_granted (JRef 0) ''user'')"
    by (simp add: getValueByPath_def heap_auth_granted_def prop_defs)
  have path: "getValueByPath heap_auth_granted (JRef 0) ''user.isAuthenticated'' = JBool True"
    by (simp add: getValueByPath_def heap_auth_granted_def prop_defs)
  have denied: "invoke (createAuthMiddleware \<lparr> authPath = None, requireUser = None \<rparr>)
      heap_auth_denied 0 = (Returns (RBool False), heap_auth_denied)"
    by (simp add: createAuthMiddleware_def createMiddleware_def auth_handler_def Let_def
        getValueByPath_def heap_auth_denied_def prop_defs)
  from auth_middleware_boolean
         [of _ heap_auth_granted 0 "\<lparr> authPath = None, requireUser = None \<rparr>"]
       user path denied
  show ?thesis by simp
qed

section \<open>Properties of the execution store\<close>

lemma store_bound_step:
  assumes "length (chains s) \<le> maxRecords \<and> length (middlewareExecutions s) \<le> maxRecords"
  shows "length (chains (apply_store_op s op)) \<le> maxRecords
       \<and> length (middlewareExecutions (apply_store_op s op)) \<le> maxRecords"
  using assms
  by (cases op) (auto simp: addChain_def addMiddlewareExecution_def clear_def Let_def)

lemma store_bound_run:
  assumes "length (chains s) \<le> maxRecords \<and> length (middlewareExecutions s) \<le> maxRecords"
  shows "length (chains (run_store_ops ops s)) \<le> maxRecords
       \<and> length (middlewareExecutions (run_store_ops ops s)) \<le> maxRecords"
  using assms unfolding run_store_ops_def
proof (induction ops arbitrary: s)
  case Nil
  then show ?case by simp
next
  case (Cons op ops)
  from Cons.IH [OF store_bound_step [OF Cons.prems]] show ?case by simp
qed

text \<open>
  Claim C2.  The store is a ring buffer of 100 entries.  Whatever sequence of
  \<^verbatim>\<open>addChain\<close>, \<^verbatim>\<open>addMiddlewareExecution\<close> and \<^verbatim>\<open>clear\<close> has run on the initially empty
  store, it holds at most 100 chain records and at most 100 middleware records.  Adding
  to a list that is not full appends; adding to a full list drops exactly the oldest
  record (the head) and keeps all the newer ones in their order, followed by the new
  one.  An add to one list leaves the other list alone.
\<close>

theorem execution_store_bounded_ring:
  "length (getChains (run_store_ops ops new_store)) \<le> 100
   \<and> length (getMiddlewareExecutions (run_store_ops ops new_store)) \<le> 100
   \<and> getChains (addChain (run_store_ops ops new_store) c) =
       (if length (getChains (run_store_ops ops new_store)) < 100
        then getChains (run_store_ops ops new_store) @ [c]
        else tl (getChains (run_store_ops ops new_store)) @ [c])
   \<and> getMiddlewareExecutions (addChain (run_store_ops ops new_store) c) =
       getMiddlewareExecutions (run_store_ops ops new_store)
   \<and> getMiddlewareExecutions (addMiddlewareExecution (run_store_ops ops new_store) e) =
       (if length (getMiddlewareExecutions (run_store_ops ops new_store)) < 100
        then getMiddlewareExecutions (run_store_ops ops new_store) @ [e]
        else tl (getMiddlewareExecutions (run_store_ops ops new_store)) @ [e])
   \<and> getChains (addMiddlewareExecution (run_store_ops ops new_store) e) =
       getChains (run_store_ops ops new_store)"
proof -
  define s where "s = run_store_ops ops new_store"
  have bound: "length (chains s) \<le> maxRecords \<and> length (middlewareExecutions s) \<le> maxRecords"
    unfolding s_def by (rule store_bound_run) (simp add: new_store_def)
  then have full:
    "length (chains s) = 100 \<Longrightarrow> chains s \<noteq> []"
    "length (middlewareExecutions s) = 100 \<Longrightarrow> middlewareExecutions s \<noteq> []"
    by auto
  from bound full show ?thesis
    unfolding s_def [symmetric]
    by (auto simp: getChains_def getMiddlewareExecutions_def addChain_def
        addMiddlewareExecution_def Let_def maxRecords_def)
qed

section \<open>Properties of the debug sanitizer\<close>

subsection \<open>The heap that was there is left as it was\<close>

lemma push_item_frame: "n \<le> r \<Longrightarrow> take n (push_item h r v) = take n h"
  by (simp add: push_item_def split: option.splits jsobj.splits)

lemma assign_prop_frame: "n \<le> r \<Longrightarrow> take n (assign_prop h r k v) = take n h"
  by (simp add: assign_prop_def split: option.splits jsobj.splits)

lemma push_item_length [simp]: "length (push_item h r v) = length h"
  by (simp add: push_item_def split: option.splits jsobj.splits)

lemma assign_prop_length [simp]: "length (assign_prop h r k v) = length h"
  by (simp add: assign_prop_def split: option.splits jsobj.splits)

text \<open>
  The first \<open>n\<close> cells of the heap are the same before and after a call, for every \<open>n\<close>
  up to the size of the heap at the call; the loops write only to their target \<open>r\<close>.
\<close>

lemma filter_frame:
  "n \<le> length h \<Longrightarrow>
     n \<le> length (snd (filterSensitiveData sens h obj d m))
     \<and> take n (snd (filterSensitiveData sens h obj d m)) = take n h"
  "n \<le> length h \<Longrightarrow> n \<le> r \<Longrightarrow>
     n \<le> length (filter_items sens h r items d m)
     \<and> take n (filter_items sens h r items d m) = take n h"
  "n \<le> length h \<Longrightarrow> n \<le> r \<Longrightarrow>
     n \<le> length (filter_entries sens h r entries d m)
     \<and> take n (filter_entries sens h r entries d m) = take n h"
proof (induction sens h obj d m and sens h r items d m and sens h r entries d m
       rule: filterSensitiveData_filter_items_filter_entries.induct)
  case (1 sens h obj depth maxDepth)
  show ?case
    using 1
    by (auto simp: filterSensitiveData.simps [of sens h obj depth maxDepth] alloc_def
        split: jsval.splits option.splits jsobj.splits)
next
  case (2 sens h r depth maxDepth)
  then show ?case by simp
next
  case (3 sens h r item items depth maxDepth)
  obtain v h' where call: "filterSensitiveData sens h item (depth + 1) maxDepth = (v, h')"
    by (cases "filterSensitiveData sens h item (depth + 1) maxDepth")
  from 3(1) [OF 3(3)] call have h': "n \<le> length h'" "take n h' = take n h"
    by simp_all
  from 3(2) [OF call [symmetric] refl] h' 3(4)
  have "n \<le> length (filter_items sens (push_item h' r v) r items depth maxDepth)
      \<and> take n (filter_items sens (push_item h' r v) r items depth maxDepth)
          = take n (push_item h' r v)"
    by simp
  with h' 3(4) call show ?case by (simp add: push_item_frame)
next
  case (4 sens h r depth maxDepth)
  then show ?case by simp
next
  case (5 sens h r key val entries depth maxDepth)
  show ?case
  proof (cases "toLowerCase key \<in> set sens")
    case True
    with 5(1) [OF True] 5(5,6) show ?thesis by (simp add: assign_prop_frame)
  next
    case False
    show ?thesis
    proof (cases "typeof val = TFunction")
      case True
      with 5(2) [OF False True] False 5(5,6) show ?thesis by (simp add: assign_prop_frame)
    next
      case notfun: False
      obtain v h' where call: "filterSensitiveData sens h val (depth + 1) maxDepth = (v, h')"
        by (cases "filterSensitiveData sens h val (depth + 1) maxDepth")
      from 5(3) [OF False notfun 5(5)] call have h': "n \<le> length h'" "take n h' = take n h"
        by simp_all
      from 5(4) [OF False notfun call [symmetric] refl] h' 5(6)
      have "n \<le> length (filter_entries sens (assign_prop h' r key v) r entries depth maxDepth)
        \<and> take n (filter_entries sens (assign_prop h' r key v) r entries depth maxDepth)
            = take n (assign_prop h' r key v)"
        by simp
      with h' 5(6) call False notfun show ?thesis by (simp add: assign_prop_frame)
    qed
  qed
qed

subsection \<open>What the loops write\<close>

lemma take_nth_eq: "take (Suc r) h' = take (Suc r) h \<Longrightarrow> r < length h \<Longrightarrow> h' ! r = h ! r"
  by (metis lessI nth_take)

lemma filter_keeps_cell:
  assumes "r < length h"
  shows "snd (filterSensitiveData sens h obj d m) ! r = h ! r"
    and "r < length (snd (filterSensitiveData sens h obj d m))"
proof -
  from assms have n: "Suc r \<le> length h" by simp
  from filter_frame(1) [OF n, of sens obj d m]
  show "snd (filterSensitiveData sens h obj d m) ! r = h ! r"
    and "r < length (snd (filterSensitiveData sens h obj d m))"
    using assms by (auto intro: take_nth_eq)
qed

lemma filterSensitiveData_scalar:
  "is_scalar v \<Longrightarrow> d \<le> m \<Longrightarrow> filterSensitiveData sens h v d m = (v, h)"
  by (cases v) (simp_all add: filterSensitiveData.simps)

lemma filterSensitiveData_too_deep:
  "m < d \<Longrightarrow> filterSensitiveData sens h obj d m = (JStr ''[Max Depth Reached]'', h)"
  by (simp add: filterSensitiveData.simps)

lemma push_item_array:
  "r < length h \<Longrightarrow> h ! r = JArray xs \<Longrightarrow> push_item h r v = h[r := JArray (xs @ [v])]"
  by (simp add: push_item_def heap_lookup_def)

lemma filter_items_too_deep:
  assumes "m \<le> d" "r < length h" "h ! r = JArray xs"
  shows "filter_items sens h r items d m =
           h[r := JArray (xs @ replicate (length items) (JStr ''[Max Depth Reached]''))]"
  using assms
proof (induction items arbitrary: h xs)
  case Nil
  then show ?case by (metis append_Nil2 filter_items.simps(1) list.size(3) list_update_id replicate_0)
next
  case (Cons item items)
  from Cons.prems(1) have call:
    "filterSensitiveData sens h item (d + 1) m = (JStr ''[Max Depth Reached]'', h)"
    by (simp add: filterSensitiveData_too_deep)
  let ?h1 = "h[r := JArray (xs @ [JStr ''[Max Depth Reached]''])]"
  from Cons.prems have "r < length ?h1" "?h1 ! r = JArray (xs @ [JStr ''[Max Depth Reached]''])"
    by simp_all
  from Cons.IH [OF Cons.prems(1) this] call Cons.prems show ?case
    by (simp add: push_item_array replicate_app_Cons_same)
qed

lemma assign_prop_object:
  "r < length h \<Longrightarrow> h ! r = JObject acc \<Longrightarrow>
   assign_prop h r k v = h[r := JObject (AList.update k v acc)]"
  by (simp add: assign_prop_def heap_lookup_def)

lemma function_not_scalar: "typeof v = TFunction \<Longrightarrow> \<not> is_scalar v"
  by (cases v) simp_all

lemma filter_entries_result:
  assumes "distinct (map fst es)" "r < length h" "h ! r = JObject acc"
  shows "\<exists>acc'. filter_entries sens h r es d m ! r = JObject acc'
          \<and> (distinct (map fst acc) \<longrightarrow> distinct (map fst acc'))
          \<and> (\<forall>k. k \<notin> fst ` set es \<longrightarrow> map_of acc' k = map_of acc k)
          \<and> (\<forall>k v. (k, v) \<in> set es \<longrightarrow> (\<exists>x. map_of acc' k = Some x \<and> entry_ok sens d m k v x))"
  using assms
proof (induction es arbitrary: h acc)
  case Nil
  then show ?case by simp
next
  case (Cons e es)
  obtain k0 v0 where e: "e = (k0, v0)" by (cases e)
  from Cons.prems e have dist: "distinct (map fst es)" and fresh: "k0 \<notin> fst ` set es"
    by auto
  have "\<exists>h1 x0. filter_entries sens h r (e # es) d m = filter_entries sens h1 r es d m
          \<and> r < length h1 \<and> h1 ! r = JObject (AList.update k0 x0 acc) \<and> entry_ok sens d m k0 v0 x0"
  proof (cases "toLowerCase k0 \<in> set sens")
    case True
    with Cons.prems e show ?thesis
      by (auto simp: assign_prop_object entry_ok_def)
  next
    case False
    show ?thesis
    proof (cases "typeof v0 = TFunction")
      case True
      with False Cons.prems e show ?thesis
        by (auto simp: assign_prop_object entry_ok_def function_not_scalar)
    next
      case notfun: False
      obtain v h' where call: "filterSensitiveData sens h v0 (d + 1) m = (v, h')"
        by (cases "filterSensitiveData sens h v0 (d + 1) m")
      from filter_keeps_cell [OF Cons.prems(2), of sens v0 "d + 1" m] call Cons.prems(3)
      have cell: "h' ! r = JObject acc" "r < length h'" by simp_all
      have ok: "entry_ok sens d m k0 v0 v"
        using False notfun call filterSensitiveData_scalar [of v0 "d + 1" m sens h]
          filterSensitiveData_too_deep [of m "d + 1" sens h v0]
        by (auto simp: entry_ok_def)
      from cell have "assign_prop h' r k0 v ! r = JObject (AList.update k0 v acc)"
          "r < length (assign_prop h' r k0 v)"
        by (simp_all add: assign_prop_object)
      with False notfun call e ok show ?thesis by auto
    qed
  qed
  then obtain h1 x0 where
    run: "filter_entries sens h r (e # es) d m = filter_entries sens h1 r es d m"
    and h1: "r < length h1" "h1 ! r = JObject (AList.update k0 x0 acc)"
    and ok0: "entry_ok sens d m k0 v0 x0"
    by blast
  from Cons.IH [OF dist h1] obtain acc' where
    res: "filter_entries sens h1 r es d m ! r = JObject acc'"
    and d': "distinct (map fst (AList.update k0 x0 acc)) \<longrightarrow> distinct (map fst acc')"
    and other: "\<forall>k. k \<notin> fst ` set es \<longrightarrow> map_of acc' k = map_of (AList.update k0 x0 acc) k"
    and these: "\<forall>k v. (k, v) \<in> set es \<longrightarrow> (\<exists>x. map_of acc' k = Some x \<and> entry_ok sens d m k v x)"
    by blast
  have "distinct (map fst acc) \<longrightarrow> distinct (map fst acc')"
    using d' by (simp add: distinct_update)
  moreover have "\<forall>k. k \<notin> fst ` set (e # es) \<longrightarrow> map_of acc' k = map_of acc k"
    using other e by (auto simp: update_conv')
  moreover have "\<forall>k v. (k, v) \<in> set (e # es) \<longrightarrow>
      (\<exists>x. map_of acc' k = Some x \<and> entry_ok sens d m k v x)"
    using these other fresh ok0 e by (auto simp: update_conv')
  ultimately show ?case using res run by auto
qed

lemma filter_length:
  "length h \<le> length (snd (filterSensitiveData sens h obj d m))"
  "length h \<le> length (filter_items sens h r items d m)"
  "length h \<le> length (filter_entries sens h r entries d m)"
proof (induction sens h obj d m and sens h r items d m and sens h r entries d m
       rule: filterSensitiveData_filter_items_filter_entries.induct)
  case (1 sens h obj depth maxDepth)
  show ?case
    using 1
    by (auto simp: filterSensitiveData.simps [of sens h obj depth maxDepth] alloc_def
        split: jsval.splits option.splits jsobj.splits intro: Suc_leD)
next
  case (3 sens h r item items depth maxDepth)
  obtain v h' where call: "filterSensitiveData sens h item (depth + 1) maxDepth = (v, h')"
    by (cases "filterSensitiveData sens h item (depth + 1) maxDepth")
  from 3(1) call have "length h \<le> length h'" by simp
  with 3(2) [OF call [symmetric] refl] call show ?case by simp
next
  case (5 sens h r key val entries depth maxDepth)
  obtain v h' where call: "filterSensitiveData sens h val (depth + 1) maxDepth = (v, h')"
    by (cases "filterSensitiveData sens h val (depth + 1) maxDepth")
  show ?case
  proof (cases "toLowerCase key \<in> set sens")
    case True
    with 5(1) show ?thesis by simp
  next
    case False
    show ?thesis
    proof (cases "typeof val = TFunction")
      case True
      with 5(2) False show ?thesis by simp
    next
      case notfun: False
      from 5(3) [OF False notfun] call have "length h \<le> length h'" by simp
      with 5(4) [OF False notfun call [symmetric] refl] call False notfun
      show ?thesis by simp
    qed
  qed
qed simp_all

lemma fold_update_other:
  "k \<notin> fst ` set es \<Longrightarrow>
   map_of (fold (\<lambda>(k, v). AList.update k v) es acc) k = map_of acc k"
  by (induction es arbitrary: acc) (auto simp: update_conv')

lemma fold_update_member:
  "distinct (map fst es) \<Longrightarrow> (k, x) \<in> set es \<Longrightarrow>
   map_of (fold (\<lambda>(k, v). AList.update k v) es acc) k = Some x"
proof (induction es arbitrary: acc)
  case Nil
  then show ?case by simp
next
  case (Cons e es)
  show ?case
  proof (cases "e = (k, x)")
    case True
    with Cons.prems have "k \<notin> fst ` set es" by auto
    with True show ?thesis by (simp add: fold_update_other update_conv')
  next
    case False
    with Cons show ?thesis by auto
  qed
qed

lemma fold_assign_prop:
  "r < length h \<Longrightarrow> h ! r = JObject acc \<Longrightarrow>
   fold (\<lambda>(k, v) hh. assign_prop hh r k v) es h =
     h[r := JObject (fold (\<lambda>(k, v). AList.update k v) es acc)]"
proof (induction es arbitrary: h acc)
  case Nil
  then show ?case by (metis fold_simps(1) list_update_id)
next
  case (Cons e es)
  obtain k v where e: "e = (k, v)" by (cases e)
  from Cons.prems have step: "assign_prop h r k v = h[r := JObject (AList.update k v acc)]"
    by (rule assign_prop_object)
  from Cons.prems have "r < length (h[r := JObject (AList.update k v acc)])"
    "h[r := JObject (AList.update k v acc)] ! r = JObject (AList.update k v acc)"
    by simp_all
  from Cons.IH [OF this] step e show ?case by simp
qed

lemma object_assign_frame: "n \<le> r \<Longrightarrow> take n (object_assign h r src) = take n h"
proof -
  have "n \<le> r \<Longrightarrow> take n (fold (\<lambda>(k, v) hh. assign_prop hh r k v) es h) = take n h" for es
    by (induction es arbitrary: h) (auto simp: assign_prop_frame)
  then show "n \<le> r \<Longrightarrow> take n (object_assign h r src) = take n h"
    by (simp add: object_assign_def)
qed

lemma object_assign_length [simp]: "length (object_assign h r src) = length h"
proof -
  have "length (fold (\<lambda>(k, v) hh. assign_prop hh r k v) es h) = length h" for es
    by (induction es arbitrary: h) auto
  then show ?thesis by (simp add: object_assign_def)
qed

lemma copy_if_string_frame: "n \<le> r \<Longrightarrow> take n (copy_if_string h c r key) = take n h"
  by (simp add: copy_if_string_def Let_def assign_prop_frame)

lemma copy_if_string_length [simp]: "length (copy_if_string h c r key) = length h"
  by (simp add: copy_if_string_def Let_def)

lemma copy_if_string_cell:
  assumes "r < length h" "h ! r = JObject acc"
  shows "\<exists>acc'. copy_if_string h c r key ! r = JObject acc'"
  using assms by (auto simp: copy_if_string_def Let_def assign_prop_object)

lemma filterSensitiveData_object:
  assumes "a < length h" "h ! a = JObject es" "distinct (map fst es)" "d \<le> m"
  shows "\<exists>acc' h'. filterSensitiveData sens h (JRef a) d m = (JRef (length h), h')
          \<and> length h < length h' \<and> take (length h) h' = h
          \<and> h' ! length h = JObject acc' \<and> distinct (map fst acc')
          \<and> (\<forall>k v. (k, v) \<in> set es \<longrightarrow> (\<exists>x. map_of acc' k = Some x \<and> entry_ok sens d m k v x))"
proof -
  let ?h0 = "h @ [JObject []]"
  let ?hf = "filter_entries sens ?h0 (length h) es d m"
  have call: "filterSensitiveData sens h (JRef a) d m = (JRef (length h), ?hf)"
    using assms by (simp add: filterSensitiveData.simps heap_lookup_def alloc_def)
  have r: "length h < length ?h0" "?h0 ! length h = JObject []" by simp_all
  from filter_entries_result [OF assms(3) r, of sens d m] obtain acc' where
    res: "?hf ! length h = JObject acc'" "distinct (map fst acc')"
      "\<forall>k v. (k, v) \<in> set es \<longrightarrow> (\<exists>x. map_of acc' k = Some x \<and> entry_ok sens d m k v x)"
    by auto
  from filter_frame(3) [of "length h" ?h0 "length h" sens es d m]
  have "length h \<le> length ?hf" "take (length h) ?hf = h" by simp_all
  moreover from filter_length(3) [of ?h0 sens "length h" es d m]
  have "length h < length ?hf" by simp
  ultimately show ?thesis using call res by auto
qed

lemma sanitizeContext_frame:
  "take (length h) (snd (sanitizeContext sens h ctx)) = h
   \<and> fst (sanitizeContext sens h ctx) = JRef (length h)
   \<and> length h < length (snd (sanitizeContext sens h ctx))"
proof -
  let ?r = "length h"
  let ?h0 = "h @ [JObject []]"
  let ?h4 = "copy_if_string (copy_if_string (copy_if_string (copy_if_string ?h0 ctx ?r ''url'')
                ctx ?r ''path'') ctx ?r ''method'') ctx ?r ''contextType''"
  obtain filtered h5 where call: "filterSensitiveData sens ?h4 (JRef ctx) 0 3 = (filtered, h5)"
    by (cases "filterSensitiveData sens ?h4 (JRef ctx) 0 3")
  have h4: "take ?r ?h4 = h" "length ?h4 = Suc ?r"
    by (simp_all add: copy_if_string_frame)
  from filter_frame(1) [of ?r ?h4 sens "JRef ctx" 0 3] filter_length(1) [of ?h4 sens "JRef ctx" 0 3]
    call h4
  have h5: "take ?r h5 = h" "Suc ?r \<le> length h5" by simp_all
  then show ?thesis
    using call by (simp add: sanitizeContext_def alloc_def Let_def object_assign_frame)
qed

subsection \<open>Entries of nested objects\<close>

text \<open>
  A loop writes to its target only; what a recursive call has allocated stays as the call
  left it while the loop goes on.
\<close>

lemma assign_prop_other: "b \<noteq> r \<Longrightarrow> assign_prop h r k x ! b = h ! b"
  by (simp add: assign_prop_def split: option.splits jsobj.splits)

lemma push_item_other: "b \<noteq> r \<Longrightarrow> push_item h r x ! b = h ! b"
  by (simp add: push_item_def split: option.splits jsobj.splits)

lemma filter_entries_other:
  "r < length h \<Longrightarrow> b < length h \<Longrightarrow> b \<noteq> r \<Longrightarrow>
   filter_entries sens h r es d m ! b = h ! b"
proof (induction es arbitrary: h)
  case Nil
  then show ?case by simp
next
  case (Cons e es)
  obtain k v where e: "e = (k, v)" by (cases e)
  obtain y h' where call: "filterSensitiveData sens h v (d + 1) m = (y, h')"
    by (cases "filterSensitiveData sens h v (d + 1) m")
  from filter_keeps_cell [of b h sens v "d + 1" m] filter_keeps_cell [of r h sens v "d + 1" m]
    call Cons.prems
  have h': "h' ! b = h ! b" "b < length h'" "r < length h'" by simp_all
  have step: "assign_prop hh r k x ! b = hh ! b" for hh x
    using Cons.prems(3) by (simp add: assign_prop_def split: option.splits jsobj.splits)
  show ?case
    using Cons.IH [of "assign_prop h r k (JStr ''[Filtered]'')"]
      Cons.IH [of "assign_prop h r k (JStr ''[Function]'')"]
      Cons.IH [of "assign_prop h' r k y"] Cons.prems h' call e step
    by simp
qed

lemma filter_items_other:
  "r < length h \<Longrightarrow> b < length h \<Longrightarrow> b \<noteq> r \<Longrightarrow>
   filter_items sens h r xs d m ! b = h ! b"
proof (induction xs arbitrary: h)
  case Nil
  then show ?case by simp
next
  case (Cons x xs)
  obtain y h' where call: "filterSensitiveData sens h x (d + 1) m = (y, h')"
    by (cases "filterSensitiveData sens h x (d + 1) m")
  from filter_keeps_cell [of b h sens x "d + 1" m] filter_keeps_cell [of r h sens x "d + 1" m]
    call Cons.prems
  have h': "h' ! b = h ! b" "b < length h'" "r < length h'" by simp_all
  have step: "push_item hh r z ! b = hh ! b" for hh z
    using Cons.prems(3) by (simp add: push_item_def split: option.splits jsobj.splits)
  show ?case
    using Cons.IH [of "push_item h' r y"] Cons.prems h' call step
    by simp
qed

lemma filter_entries_step:
  assumes "r < length h" "h ! r = JObject acc"
  shows "\<exists>h1 acc1. filter_entries sens h r ((k, v) # es) d m = filter_entries sens h1 r es d m
           \<and> r < length h1 \<and> h1 ! r = JObject acc1 \<and> length h \<le> length h1
           \<and> (\<forall>b < length h. b \<noteq> r \<longrightarrow> h1 ! b = h ! b)"
proof -
  obtain y h' where call: "filterSensitiveData sens h v (d + 1) m = (y, h')"
    by (cases "filterSensitiveData sens h v (d + 1) m")
  from filter_keeps_cell [OF assms(1), of sens v "d + 1" m] call assms(2)
  have cell: "h' ! r = JObject acc" "r < length h'" by simp_all
  from filter_length(1) [of h sens v "d + 1" m] call have len: "length h \<le> length h'" by simp
  have keep: "\<forall>b < length h. h' ! b = h ! b"
    using filter_keeps_cell(1) [of _ h sens v "d + 1" m] call by simp
  have marker: "r < length (assign_prop h r k x) \<and> assign_prop h r k x ! r = JObject (AList.update k x acc)
      \<and> length h \<le> length (assign_prop h r k x)
      \<and> (\<forall>b < length h. b \<noteq> r \<longrightarrow> assign_prop h r k x ! b = h ! b)" for x
    using assms by (simp add: assign_prop_object assign_prop_other)
  have rec: "r < length (assign_prop h' r k y) \<and> assign_prop h' r k y ! r = JObject (AList.update k y acc)
      \<and> length h \<le> length (assign_prop h' r k y)
      \<and> (\<forall>b < length h. b \<noteq> r \<longrightarrow> assign_prop h' r k y ! b = h ! b)"
    using cell len keep by (simp add: assign_prop_object assign_prop_other)
  show ?thesis
  proof (cases "toLowerCase k \<in> set sens")
    case True
    with marker [of "JStr ''[Filtered]''"] show ?thesis by auto
  next
    case False
    show ?thesis
    proof (cases "typeof v = TFunction")
      case True
      with False marker [of "JStr ''[Function]''"] show ?thesis by auto
    next
      case notfun: False
      with False rec call show ?thesis by auto
    qed
  qed
qed

lemma filter_entries_entry:
  assumes "distinct (map fst es)" "(k, x) \<in> set es" "toLowerCase k \<notin> set sens"
    "typeof x \<noteq> TFunction" "r < length h" "h ! r = JObject acc"
  shows "\<exists>hk y hk' acc'.
          filterSensitiveData sens hk x (d + 1) m = (y, hk')
          \<and> length h \<le> length hk \<and> (\<forall>b < length h. b \<noteq> r \<longrightarrow> hk ! b = h ! b)
          \<and> length hk' \<le> length (filter_entries sens h r es d m)
          \<and> (\<forall>b. length hk \<le> b \<and> b < length hk' \<longrightarrow>
                filter_entries sens h r es d m ! b = hk' ! b)
          \<and> filter_entries sens h r es d m ! r = JObject acc' \<and> map_of acc' k = Some y"
  using assms
proof (induction es arbitrary: h acc)
  case Nil
  then show ?case by simp
next
  case (Cons e es)
  obtain k1 v1 where e: "e = (k1, v1)" by (cases e)
  from Cons.prems(1) e have dist: "distinct (map fst es)" and k1: "k1 \<notin> fst ` set es" by auto
  show ?case
  proof (cases "e = (k, x)")
    case True
    with e have eq: "k1 = k" "v1 = x" by simp_all
    obtain y h' where call: "filterSensitiveData sens h x (d + 1) m = (y, h')"
      by (cases "filterSensitiveData sens h x (d + 1) m")
    let ?h1 = "assign_prop h' r k y"
    let ?hf = "filter_entries sens ?h1 r es d m"
    from filter_keeps_cell [OF Cons.prems(5), of sens x "d + 1" m] call Cons.prems(6)
    have cell: "h' ! r = JObject acc" "r < length h'" by simp_all
    from filter_length(1) [of h sens x "d + 1" m] call have len: "length h \<le> length h'" by simp
    have run: "filter_entries sens h r (e # es) d m = ?hf"
      using True Cons.prems(3,4) call by simp
    have h1: "r < length ?h1" "?h1 ! r = JObject (AList.update k y acc)"
      using cell by (simp_all add: assign_prop_object)
    from filter_entries_result [OF dist h1, of sens d m] obtain acc' where
      res: "?hf ! r = JObject acc'"
      and other: "\<forall>k'. k' \<notin> fst ` set es \<longrightarrow> map_of acc' k' = map_of (AList.update k y acc) k'"
      by blast
    from other k1 eq have val: "map_of acc' k = Some y" by (simp add: update_conv')
    from filter_length(3) [of ?h1 sens r es d m] have lenf: "length h' \<le> length ?hf" by simp
    have same: "?hf ! b = h' ! b" if "length h \<le> b" "b < length h'" for b
    proof -
      from that Cons.prems(5) have "b \<noteq> r" by simp
      with filter_entries_other [OF h1(1), of b sens es d m] that
      show ?thesis by (simp add: assign_prop_other)
    qed
    from call lenf same res val show ?thesis
      unfolding run by blast
  next
    case False
    with Cons.prems(2) have mem: "(k, x) \<in> set es" by simp
    from filter_entries_step [OF Cons.prems(5,6), of sens k1 v1 es d m] e obtain h1 acc1 where
      run: "filter_entries sens h r (e # es) d m = filter_entries sens h1 r es d m"
      and h1: "r < length h1" "h1 ! r = JObject acc1" "length h \<le> length h1"
        "\<forall>b < length h. b \<noteq> r \<longrightarrow> h1 ! b = h ! b"
      by blast
    from Cons.IH [OF dist mem Cons.prems(3,4) h1(1,2)] obtain hk y hk' acc' where
      ih: "filterSensitiveData sens hk x (d + 1) m = (y, hk')"
        "length h1 \<le> length hk" "\<forall>b < length h1. b \<noteq> r \<longrightarrow> hk ! b = h1 ! b"
        "length hk' \<le> length (filter_entries sens h1 r es d m)"
        "\<forall>b. length hk \<le> b \<and> b < length hk' \<longrightarrow> filter_entries sens h1 r es d m ! b = hk' ! b"
        "filter_entries sens h1 r es d m ! r = JObject acc'" "map_of acc' k = Some y"
      by blast
    from ih(2) h1(3) have a: "length h \<le> length hk" by simp
    from ih(3) h1(3,4) have b: "\<forall>b < length h. b \<noteq> r \<longrightarrow> hk ! b = h ! b" by auto
    from ih(1) a b ih(4-7) show ?thesis
      unfolding run by blast
  qed
qed

lemma filter_items_step:
  assumes "r < length h" "h ! r = JArray acc"
  shows "\<exists>h1 z. filter_items sens h r (x # xs) d m = filter_items sens h1 r xs d m
           \<and> r < length h1 \<and> h1 ! r = JArray (acc @ [z]) \<and> length h \<le> length h1
           \<and> (\<forall>b < length h. b \<noteq> r \<longrightarrow> h1 ! b = h ! b)"
proof -
  obtain y h' where call: "filterSensitiveData sens h x (d + 1) m = (y, h')"
    by (cases "filterSensitiveData sens h x (d + 1) m")
  from filter_keeps_cell [OF assms(1), of sens x "d + 1" m] call assms(2)
  have cell: "h' ! r = JArray acc" "r < length h'" by simp_all
  from filter_length(1) [of h sens x "d + 1" m] call have len: "length h \<le> length h'" by simp
  have keep: "\<forall>b < length h. h' ! b = h ! b"
    using filter_keeps_cell(1) [of _ h sens x "d + 1" m] call by simp
  have "r < length (push_item h' r y) \<and> push_item h' r y ! r = JArray (acc @ [y])
      \<and> length h \<le> length (push_item h' r y)
      \<and> (\<forall>b < length h. b \<noteq> r \<longrightarrow> push_item h' r y ! b = h ! b)"
    using cell len keep by (simp add: push_item_array push_item_other)
  with call show ?thesis by auto
qed

lemma filter_items_cell:
  "r < length h \<Longrightarrow> h ! r = JArray acc \<Longrightarrow>
   \<exists>zs. filter_items sens h r xs d m ! r = JArray (acc @ zs) \<and> length zs = length xs"
proof (induction xs arbitrary: h acc)
  case Nil
  then show ?case by simp
next
  case (Cons x xs)
  from filter_items_step [OF Cons.prems, of sens x xs d m] obtain h1 z where
    run: "filter_items sens h r (x # xs) d m = filter_items sens h1 r xs d m"
    and h1: "r < length h1" "h1 ! r = JArray (acc @ [z])"
    by blast
  from Cons.IH [OF h1] obtain zs where
    "filter_items sens h1 r xs d m ! r = JArray ((acc @ [z]) @ zs)" "length zs = length xs"
    by blast
  then have "filter_items sens h1 r xs d m ! r = JArray (acc @ (z # zs))"
    "length (z # zs) = length (x # xs)" by simp_all
  then show ?case unfolding run by blast
qed

lemma filter_items_item:
  assumes "i < length xs" "r < length h" "h ! r = JArray acc"
  shows "\<exists>hk y hk' ys.
          filterSensitiveData sens hk (xs ! i) (d + 1) m = (y, hk')
          \<and> length h \<le> length hk \<and> (\<forall>b < length h. b \<noteq> r \<longrightarrow> hk ! b = h ! b)
          \<and> length hk' \<le> length (filter_items sens h r xs d m)
          \<and> (\<forall>b. length hk \<le> b \<and> b < length hk' \<longrightarrow>
                filter_items sens h r xs d m ! b = hk' ! b)
          \<and> filter_items sens h r xs d m ! r = JArray ys
          \<and> length acc + i < length ys \<and> ys ! (length acc + i) = y"
  using assms
proof (induction xs arbitrary: h acc i)
  case Nil
  then show ?case by simp
next
  case (Cons x xs)
  show ?case
  proof (cases i)
    case 0
    obtain y h' where call: "filterSensitiveData sens h x (d + 1) m = (y, h')"
      by (cases "filterSensitiveData sens h x (d + 1) m")
    let ?h1 = "push_item h' r y"
    let ?hf = "filter_items sens ?h1 r xs d m"
    from filter_keeps_cell [OF Cons.prems(2), of sens x "d + 1" m] call Cons.prems(3)
    have cell: "h' ! r = JArray acc" "r < length h'" by simp_all
    have run: "filter_items sens h r (x # xs) d m = ?hf"
      using call by simp
    have h1: "r < length ?h1" "?h1 ! r = JArray (acc @ [y])"
      using cell by (simp_all add: push_item_array)
    from filter_items_cell [OF h1, of sens xs d m] obtain zs where
      res: "?hf ! r = JArray ((acc @ [y]) @ zs)" by blast
    have val: "length acc + 0 < length ((acc @ [y]) @ zs)" "((acc @ [y]) @ zs) ! (length acc + 0) = y"
      by (simp_all add: nth_append)
    from filter_length(2) [of ?h1 sens r xs d m] have lenf: "length h' \<le> length ?hf" by simp
    have same: "?hf ! b = h' ! b" if "length h \<le> b" "b < length h'" for b
    proof -
      from that Cons.prems(2) have "b \<noteq> r" by simp
      with filter_items_other [OF h1(1), of b sens xs d m] that
      show ?thesis by (simp add: push_item_other)
    qed
    have nth: "(x # xs) ! i = x" using 0 by simp
    from call lenf same res val Cons.prems(2) have "\<exists>hk ya hk' ys.
          filterSensitiveData sens hk x (d + 1) m = (ya, hk')
          \<and> length h \<le> length hk \<and> (\<forall>b < length h. b \<noteq> r \<longrightarrow> hk ! b = h ! b)
          \<and> length hk' \<le> length ?hf
          \<and> (\<forall>b. length hk \<le> b \<and> b < length hk' \<longrightarrow> ?hf ! b = hk' ! b)
          \<and> ?hf ! r = JArray ys
          \<and> length acc + 0 < length ys \<and> ys ! (length acc + 0) = ya"
      by blast
    then show ?thesis
      unfolding run nth using 0 by simp
  next
    case (Suc j)
    with Cons.prems(1) have j: "j < length xs" by simp
    from filter_items_step [OF Cons.prems(2,3), of sens x xs d m] obtain h1 z where
      run: "filter_items sens h r (x # xs) d m = filter_items sens h1 r xs d m"
      and h1: "r < length h1" "h1 ! r = JArray (acc @ [z])" "length h \<le> length h1"
        "\<forall>b < length h. b \<noteq> r \<longrightarrow> h1 ! b = h ! b"
      by blast
    from Cons.IH [OF j h1(1,2)] obtain hk y hk' ys where
      ih: "filterSensitiveData sens hk (xs ! j) (d + 1) m = (y, hk')"
        "length h1 \<le> length hk" "\<forall>b < length h1. b \<noteq> r \<longrightarrow> hk ! b = h1 ! b"
        "length hk' \<le> length (filter_items sens h1 r xs d m)"
        "\<forall>b. length hk \<le> b \<and> b < length hk' \<longrightarrow> filter_items sens h1 r xs d m ! b = hk' ! b"
        "filter_items sens h1 r xs d m ! r = JArray ys"
        "length (acc @ [z]) + j < length ys" "ys ! (length (acc @ [z]) + j) = y"
      by blast
    from ih(2) h1(3) have a: "length h \<le> length hk" by simp
    from ih(3) h1(3,4) have b: "\<forall>b < length h. b \<noteq> r \<longrightarrow> hk ! b = h ! b" by auto
    from ih(7,8) have c: "length acc + i < length ys" "ys ! (length acc + i) = y"
      using Suc by simp_all
    have nth: "(x # xs) ! i = xs ! j" using Suc by simp
    from ih(1) a b ih(4-6) c show ?thesis
      unfolding run nth by blast
  qed
qed

text \<open>
  Following a path in the copy.  The result of a call is read in any later heap that
  still has the objects the call allocated.
\<close>

lemma parse_index_length: "parse_index ''length'' = None"
  by (simp add: parse_index_def is_digit_def)

lemma walk_keys_not_function: "walk_keys h x ks = JRef a \<Longrightarrow> typeof x \<noteq> TFunction"
  by (cases ks; cases x) auto

lemma clear_path_extend:
  assumes "clear_path sens h v ks" "length h \<le> length h2" "\<forall>b < length h. h2 ! b = h ! b"
  shows "clear_path sens h2 v ks \<and> walk_keys h2 v ks = walk_keys h v ks"
  using assms(1)
proof (induction ks arbitrary: v)
  case Nil
  then show ?case by simp
next
  case (Cons k ks)
  from Cons.prems obtain a where v: "v = JRef a" by (cases v) auto
  with Cons.prems obtain ob where ob: "heap_lookup h a = Some ob" by (cases "heap_lookup h a") auto
  then have a: "a < length h" "h ! a = ob" by (auto simp: heap_lookup_def split: if_splits)
  with assms(2,3) have ob2: "heap_lookup h2 a = Some ob" by (simp add: heap_lookup_def)
  show ?case
  proof (cases ob)
    case (JObject es)
    with Cons.prems v ob have "clear_path sens h (object_prop es k) ks" by simp
    from Cons.IH [OF this] Cons.prems v ob ob2 JObject show ?thesis
      by (simp add: get_prop_def)
  next
    case (JArray xs)
    with Cons.prems v ob obtain i where i: "parse_index k = Some i" "i < length xs"
      "clear_path sens h (xs ! i) ks"
      by (cases "parse_index k") auto
    from i(1) have "k \<noteq> ''length''" using parse_index_length by auto
    with Cons.IH [OF i(3)] i v ob ob2 JArray show ?thesis
      by (simp add: get_prop_def array_prop_def)
  qed
qed

lemma filter_path:
  assumes "clear_path sens h v ks" "walk_keys h v ks = JRef a" "a < length h" "h ! a = JObject es"
    "distinct (map fst es)" "(k, x) \<in> set es" "d + length ks \<le> m"
    "filterSensitiveData sens h v d m = (r, h')"
    "length h' \<le> length h2" "\<forall>b. length h \<le> b \<and> b < length h' \<longrightarrow> h2 ! b = h' ! b"
  shows "entry_ok sens (d + length ks) m k x (walk_keys h2 r (ks @ [k]))"
  using assms(1-4,7-10)
proof (induction ks arbitrary: h v d r h')
  case Nil
  from Nil.prems have v: "v = JRef a" by simp
  from Nil.prems have d: "d \<le> m" by simp
  from filterSensitiveData_object [OF Nil.prems(3,4) assms(5) d, of sens] Nil.prems(6) v
  obtain acc' where
    r: "r = JRef (length h)" and len: "length h < length h'"
    and cell: "h' ! length h = JObject acc'"
    and ok: "\<forall>k v. (k, v) \<in> set es \<longrightarrow> (\<exists>y. map_of acc' k = Some y \<and> entry_ok sens d m k v y)"
    by auto
  from ok assms(6) obtain y where y: "map_of acc' k = Some y" "entry_ok sens d m k x y" by blast
  from Nil.prems(7,8) len cell have "length h < length h2" "h2 ! length h = JObject acc'"
    by simp_all
  with y r show ?case
    by (simp add: get_prop_def heap_lookup_def object_prop_def)
next
  case (Cons k0 ks)
  from Cons.prems(1) obtain a0 where v: "v = JRef a0" by (cases v) auto
  with Cons.prems(1) obtain ob where ob: "heap_lookup h a0 = Some ob"
    by (cases "heap_lookup h a0") auto
  from Cons.prems(5) have d: "d \<le> m" "\<not> m < d" by simp_all
  let ?r = "length h"
  have step: "\<exists>x0 hk y hk'.
      clear_path sens h x0 ks \<and> walk_keys h x0 ks = JRef a
      \<and> filterSensitiveData sens hk x0 (d + 1) m = (y, hk')
      \<and> length h \<le> length hk \<and> (\<forall>b < length h. hk ! b = h ! b)
      \<and> length hk' \<le> length h'
      \<and> (\<forall>b. length hk \<le> b \<and> b < length hk' \<longrightarrow> h' ! b = hk' ! b)
      \<and> r = JRef ?r \<and> ?r < length h' \<and> get_prop h2 (JRef ?r) k0 = y"
  proof (cases ob)
    case (JObject es0)
    let ?h0 = "h @ [JObject []]"
    let ?hf = "filter_entries sens ?h0 ?r es0 d m"
    let ?x0 = "object_prop es0 k0"
    from Cons.prems(1) v ob JObject have cp: "distinct (map fst es0)" "k0 \<in> fst ` set es0"
      "toLowerCase k0 \<notin> set sens" "clear_path sens h ?x0 ks"
      by simp_all
    from cp(1,2) have mem: "(k0, ?x0) \<in> set es0"
      by (auto simp: object_prop_def)
    from Cons.prems(2) v ob JObject have walk: "walk_keys h ?x0 ks = JRef a"
      by (simp add: get_prop_def)
    then have notfun: "typeof ?x0 \<noteq> TFunction" by (rule walk_keys_not_function)
    from Cons.prems(6) v ob JObject d have res: "r = JRef ?r" "h' = ?hf"
      by (simp_all add: filterSensitiveData.simps [of sens h "JRef a0"] alloc_def)
    have r0: "?r < length ?h0" "?h0 ! ?r = JObject []" by simp_all
    from filter_entries_entry [OF cp(1) mem cp(3) notfun r0, of d m]
    obtain hk y hk' acc' where
      e: "filterSensitiveData sens hk ?x0 (d + 1) m = (y, hk')"
        "length ?h0 \<le> length hk" "\<forall>b < length ?h0. b \<noteq> ?r \<longrightarrow> hk ! b = ?h0 ! b"
        "length hk' \<le> length ?hf"
        "\<forall>b. length hk \<le> b \<and> b < length hk' \<longrightarrow> ?hf ! b = hk' ! b"
        "?hf ! ?r = JObject acc'" "map_of acc' k0 = Some y"
      by blast
    from e(2) have len: "length h \<le> length hk" by simp
    from e(3) have keep: "\<forall>b < length h. hk ! b = h ! b" by (simp add: nth_append)
    from filter_length(3) [of ?h0 sens ?r es0 d m] have lenf: "?r < length ?hf" by simp
    with Cons.prems(7,8) res e(6) have "?r < length h2" "h2 ! ?r = JObject acc'" by simp_all
    with e(7) have get: "get_prop h2 (JRef ?r) k0 = y"
      by (simp add: get_prop_def heap_lookup_def object_prop_def)
    from cp(4) walk e(1) len keep e(4,5) res lenf get show ?thesis by blast
  next
    case (JArray xs)
    let ?h0 = "h @ [JArray []]"
    let ?hf = "filter_items sens ?h0 ?r xs d m"
    from Cons.prems(1) v ob JArray obtain i where i: "parse_index k0 = Some i" "i < length xs"
      "clear_path sens h (xs ! i) ks"
      by (cases "parse_index k0") auto
    from i(1) have nolen: "k0 \<noteq> ''length''" using parse_index_length by auto
    from Cons.prems(2) v ob JArray i nolen have walk: "walk_keys h (xs ! i) ks = JRef a"
      by (simp add: get_prop_def array_prop_def)
    from Cons.prems(6) v ob JArray d have res: "r = JRef ?r" "h' = ?hf"
      by (simp_all add: filterSensitiveData.simps [of sens h "JRef a0"] alloc_def)
    have r0: "?r < length ?h0" "?h0 ! ?r = JArray []" by simp_all
    from filter_items_item [OF i(2) r0, of sens d m]
    obtain hk y hk' ys where
      e: "filterSensitiveData sens hk (xs ! i) (d + 1) m = (y, hk')"
        "length ?h0 \<le> length hk" "\<forall>b < length ?h0. b \<noteq> ?r \<longrightarrow> hk ! b = ?h0 ! b"
        "length hk' \<le> length ?hf"
        "\<forall>b. length hk \<le> b \<and> b < length hk' \<longrightarrow> ?hf ! b = hk' ! b"
        "?hf ! ?r = JArray ys" "i < length ys" "ys ! i = y"
      by auto
    from e(2) have len: "length h \<le> length hk" by simp
    from e(3) have keep: "\<forall>b < length h. hk ! b = h ! b" by (simp add: nth_append)
    from filter_length(2) [of ?h0 sens ?r xs d m] have lenf: "?r < length ?hf" by simp
    with Cons.prems(7,8) res e(6) have "?r < length h2" "h2 ! ?r = JArray ys" by simp_all
    with e(7,8) i(1) nolen have get: "get_prop h2 (JRef ?r) k0 = y"
      by (simp add: get_prop_def heap_lookup_def array_prop_def)
    from i(3) walk e(1) len keep e(4,5) res lenf get show ?thesis by blast
  qed
  then obtain x0 hk y hk' where
    s: "clear_path sens h x0 ks" "walk_keys h x0 ks = JRef a"
      "filterSensitiveData sens hk x0 (d + 1) m = (y, hk')"
      "length h \<le> length hk" "\<forall>b < length h. hk ! b = h ! b"
      "length hk' \<le> length h'"
      "\<forall>b. length hk \<le> b \<and> b < length hk' \<longrightarrow> h' ! b = hk' ! b"
      "r = JRef ?r" "?r < length h'" "get_prop h2 (JRef ?r) k0 = y"
    by blast
  from clear_path_extend [OF s(1,4,5)] s(2)
  have cp: "clear_path sens hk x0 ks" "walk_keys hk x0 ks = JRef a" by simp_all
  from Cons.prems(3,4) s(4,5) have cell: "a < length hk" "hk ! a = JObject es" by simp_all
  from Cons.prems(5) have depth: "d + 1 + length ks \<le> m" by simp
  from s(6) Cons.prems(7) have l2: "length hk' \<le> length h2" by simp
  have agree: "\<forall>b. length hk \<le> b \<and> b < length hk' \<longrightarrow> h2 ! b = hk' ! b"
    using s(4,6,7) Cons.prems(8) by auto
  from Cons.IH [OF cp cell depth s(3) l2 agree]
  have "entry_ok sens (d + 1 + length ks) m k x (walk_keys h2 y (ks @ [k]))" .
  with s(8,10) show ?case by simp
qed

lemma sanitizeContext_path:
  assumes "ctx < length h" "h ! ctx = JObject ces" "distinct (map fst ces)"
    "clear_path sens h (JRef ctx) ks" "walk_keys h (JRef ctx) ks = JRef a"
    "a < length h" "h ! a = JObject es" "distinct (map fst es)" "(k, x) \<in> set es"
    "length ks \<le> 3"
  shows "entry_ok sens (length ks) 3 k x
           (walk_keys (snd (sanitizeContext sens h ctx)) (JRef (length h)) (ks @ [k]))"
proof -
  let ?r = "length h"
  let ?h0 = "h @ [JObject []]"
  let ?h1 = "copy_if_string ?h0 ctx ?r ''url''"
  let ?h2 = "copy_if_string ?h1 ctx ?r ''path''"
  let ?h3 = "copy_if_string ?h2 ctx ?r ''method''"
  let ?h4 = "copy_if_string ?h3 ctx ?r ''contextType''"
  have "?h0 ! ?r = JObject []" by simp
  from copy_if_string_cell [OF _ this, of ctx "''url''"]
  obtain a1 where "?h1 ! ?r = JObject a1" by auto
  from copy_if_string_cell [OF _ this, of ctx "''path''"]
  obtain a2 where "?h2 ! ?r = JObject a2" by auto
  from copy_if_string_cell [OF _ this, of ctx "''method''"]
  obtain a3 where "?h3 ! ?r = JObject a3" by auto
  from copy_if_string_cell [OF _ this, of ctx "''contextType''"]
  obtain accC where cell4: "?h4 ! ?r = JObject accC" by auto
  have len4: "length ?h4 = Suc ?r" by simp
  have take4: "take ?r ?h4 = h" by (simp add: copy_if_string_frame)
  have keep4: "\<forall>b < ?r. ?h4 ! b = h ! b"
    using take4 by (metis nth_take)
  with assms(1,2) have ctx4: "ctx < length ?h4" "?h4 ! ctx = JObject ces"
    by simp_all
  from filterSensitiveData_object [OF ctx4 assms(3), of 0 3 sens] len4
  obtain acc' h5 where
    call: "filterSensitiveData sens ?h4 (JRef ctx) 0 3 = (JRef (Suc ?r), h5)"
    and h5: "Suc ?r < length h5" "take (Suc ?r) h5 = ?h4"
      "h5 ! Suc ?r = JObject acc'" "distinct (map fst acc')"
    and ok: "\<forall>k v. (k, v) \<in> set ces \<longrightarrow> (\<exists>y. map_of acc' k = Some y \<and> entry_ok sens 0 3 k v y)"
    by auto
  from h5(2) cell4 have cell5: "h5 ! ?r = JObject accC"
    by (metis lessI nth_take)
  from h5(1) have r5: "?r < length h5" by simp
  have own: "own_entries h5 (JRef (Suc ?r)) = acc'"
    using h5 by (simp add: own_entries_def heap_lookup_def)
  let ?h6 = "h5[?r := JObject (fold (\<lambda>(k, v). AList.update k v) acc' accC)]"
  have assign: "object_assign h5 ?r (JRef (Suc ?r)) = ?h6"
    unfolding object_assign_def own by (rule fold_assign_prop [OF r5 cell5])
  have result: "snd (sanitizeContext sens h ctx) = ?h6"
    using call assign by (simp add: sanitizeContext_def alloc_def Let_def)
  obtain k0 rest where path: "ks @ [k] = k0 # rest"
    by (cases ks) auto
  have k0: "k0 \<in> fst ` set ces"
  proof (cases ks)
    case Nil
    with assms(2,5,7,9) path show ?thesis by force
  next
    case (Cons k1 ks')
    with assms(1,2,4) path show ?thesis by (simp add: heap_lookup_def)
  qed
  then obtain v0 where "(k0, v0) \<in> set ces" by auto
  with ok obtain y0 where y0: "map_of acc' k0 = Some y0" by blast
  then have "(k0, y0) \<in> set acc'" by (rule map_of_SomeD)
  from fold_update_member [OF h5(4) this]
  have "object_prop (fold (\<lambda>(k, v). AList.update k v) acc' accC) k0 = y0"
    by (simp add: object_prop_def)
  with r5 h5 y0 have "get_prop ?h6 (JRef ?r) k0 = get_prop ?h6 (JRef (Suc ?r)) k0"
    by (simp add: get_prop_def heap_lookup_def object_prop_def)
  then have same: "walk_keys ?h6 (JRef ?r) (ks @ [k]) = walk_keys ?h6 (JRef (Suc ?r)) (ks @ [k])"
    unfolding path by simp
  from clear_path_extend [OF assms(4), of ?h4] keep4 len4 assms(5)
  have cp: "clear_path sens ?h4 (JRef ctx) ks" "walk_keys ?h4 (JRef ctx) ks = JRef a"
    by simp_all
  from assms(6,7) keep4 len4 have cell: "a < length ?h4" "?h4 ! a = JObject es" by simp_all
  from assms(10) have depth: "0 + length ks \<le> 3" by simp
  have l6: "length h5 \<le> length ?h6" by simp
  have agree: "\<forall>b. length ?h4 \<le> b \<and> b < length h5 \<longrightarrow> ?h6 ! b = h5 ! b"
    using len4 by simp
  from filter_path [OF cp cell assms(8,9) depth call l6 agree]
  have "entry_ok sens (0 + length ks) 3 k x (walk_keys ?h6 (JRef (Suc ?r)) (ks @ [k]))" .
  with same result show ?thesis by simp
qed

subsection \<open>Depth bound and markers\<close>

text \<open>
  Claim C4, as the code has it.  \<^verbatim>\<open>filterSensitiveData\<close> is total: its termination
  proof is the one given with its definition, by the measure \<open>maxDepth + 1 - depth\<close>,
  and it holds for every heap, cyclic or not, since a call never follows a reference
  without going one level deeper.  A call at a depth greater than the maximum returns
  \<^verbatim>\<open>'[Max Depth Reached]'\<close> whatever its argument is, and leaves the heap alone.  In an
  object that is copied (depth at most the maximum) an entry with a sensitive key
  becomes \<^verbatim>\<open>'[Filtered]'\<close>, also when its value is a function; any other function-valued
  entry becomes \<^verbatim>\<open>'[Function]'\<close>, also at the maximum depth; and at the maximum depth
  every remaining entry, and every element of an array, becomes
  \<^verbatim>\<open>'[Max Depth Reached]'\<close>.
\<close>

theorem filterSensitiveData_depth_bounded:
  "(m < d \<longrightarrow> filterSensitiveData sens h obj d m = (JStr ''[Max Depth Reached]'', h))
   \<and> (d \<le> m \<and> a < length h \<and> h ! a = JObject es \<and> distinct (map fst es) \<and> (k, v) \<in> set es \<longrightarrow>
        (let (copy, h') = filterSensitiveData sens h (JRef a) d m
         in copy = JRef (length h) \<and> take (length h) h' = h
            \<and> (toLowerCase k \<in> set sens \<longrightarrow> get_prop h' copy k = JStr ''[Filtered]'')
            \<and> (toLowerCase k \<notin> set sens \<and> typeof v = TFunction \<longrightarrow>
                 get_prop h' copy k = JStr ''[Function]'')
            \<and> (toLowerCase k \<notin> set sens \<and> typeof v \<noteq> TFunction \<and> d = m \<longrightarrow>
                 get_prop h' copy k = JStr ''[Max Depth Reached]'')))
   \<and> (d = m \<and> a < length h \<and> h ! a = JArray xs \<longrightarrow>
        filterSensitiveData sens h (JRef a) d m =
          (JRef (length h),
           h @ [JArray (replicate (length xs) (JStr ''[Max Depth Reached]''))]))"
proof (intro conjI impI)
  assume "m < d"
  then show "filterSensitiveData sens h obj d m = (JStr ''[Max Depth Reached]'', h)"
    by (rule filterSensitiveData_too_deep)
next
  assume a: "d \<le> m \<and> a < length h \<and> h ! a = JObject es \<and> distinct (map fst es) \<and> (k, v) \<in> set es"
  with filterSensitiveData_object [of a h es d m sens] obtain acc' h' where
    call: "filterSensitiveData sens h (JRef a) d m = (JRef (length h), h')"
    and h': "length h < length h'" "take (length h) h' = h" "h' ! length h = JObject acc'"
    and ok: "\<exists>x. map_of acc' k = Some x \<and> entry_ok sens d m k v x"
    by blast
  from h' have get: "get_prop h' (JRef (length h)) k = object_prop acc' k"
    by (simp add: get_prop_def heap_lookup_def)
  from ok have "(toLowerCase k \<in> set sens \<longrightarrow> object_prop acc' k = JStr ''[Filtered]'')
     \<and> (toLowerCase k \<notin> set sens \<and> typeof v = TFunction \<longrightarrow> object_prop acc' k = JStr ''[Function]'')
     \<and> (toLowerCase k \<notin> set sens \<and> typeof v \<noteq> TFunction \<and> d = m \<longrightarrow>
           object_prop acc' k = JStr ''[Max Depth Reached]'')"
    by (auto simp: entry_ok_def object_prop_def)
  with call h' get show "let (copy, h') = filterSensitiveData sens h (JRef a) d m
         in copy = JRef (length h) \<and> take (length h) h' = h
            \<and> (toLowerCase k \<in> set sens \<longrightarrow> get_prop h' copy k = JStr ''[Filtered]'')
            \<and> (toLowerCase k \<notin> set sens \<and> typeof v = TFunction \<longrightarrow>
                 get_prop h' copy k = JStr ''[Function]'')
            \<and> (toLowerCase k \<notin> set sens \<and> typeof v \<noteq> TFunction \<and> d = m \<longrightarrow>
                 get_prop h' copy k = JStr ''[Max Depth Reached]'')"
    by simp
next
  assume b: "d = m \<and> a < length h \<and> h ! a = JArray xs"
  have "filter_items sens (h @ [JArray []]) (length h) xs m m =
      (h @ [JArray []])[length h := JArray ([] @ replicate (length xs) (JStr ''[Max Depth Reached]''))]"
    by (rule filter_items_too_deep) simp_all
  with b show "filterSensitiveData sens h (JRef a) d m =
          (JRef (length h),
           h @ [JArray (replicate (length xs) (JStr ''[Max Depth Reached]''))])"
    by (simp add: filterSensitiveData.simps [of sens h "JRef a"] heap_lookup_def alloc_def)
qed

theorem filterSensitiveData_depth_bounded_witness:
  "filterSensitiveData [''password''] heap_cyclic (JRef 0) 4 3 =
     (JStr ''[Max Depth Reached]'', heap_cyclic)
   \<and> filterSensitiveData [''password''] heap_cyclic (JRef 1) 3 3 =
       (JRef 2, heap_cyclic @ [JArray [JStr ''[Max Depth Reached]'', JStr ''[Max Depth Reached]'']])
   \<and> get_prop (snd (filterSensitiveData [''password''] heap_cyclic (JRef 0) 3 3))
        (fst (filterSensitiveData [''password''] heap_cyclic (JRef 0) 3 3)) ''self''
       = JStr ''[Max Depth Reached]''
   \<and> get_prop (snd (filterSensitiveData [''password''] heap_handlers (JRef 0) 0 3))
        (fst (filterSensitiveData [''password''] heap_handlers (JRef 0) 0 3)) ''onClick''
       = JStr ''[Function]''
   \<and> length (snd (filterSensitiveData [''password''] heap_cyclic (JRef 0) 0 3)) = 13"
proof -
  have low: "toLowerCase ''self'' = ''self''" "toLowerCase ''onClick'' = ''onclick''"
    by (simp_all add: toLowerCase_def lower_char_def)
  note deep = filterSensitiveData_depth_bounded
    [of 3 4 "[''password'']" heap_cyclic "JRef 0", THEN conjunct1]
  note arr = filterSensitiveData_depth_bounded
    [of 3 3 "[''password'']" heap_cyclic _ 1 _ _ _ "[JRef 0, JFunction 7]",
      THEN conjunct2, THEN conjunct2]
  note self = filterSensitiveData_depth_bounded
    [of 3 3 "[''password'']" heap_cyclic _ 0 "[(''self'', JRef 0), (''list'', JRef 1)]"
        "''self''" "JRef 0", THEN conjunct2, THEN conjunct1]
  note click = filterSensitiveData_depth_bounded
    [of 3 0 "[''password'']" heap_handlers _ 0
        "[(''onClick'', JFunction 0), (''password'', JFunction 1)]"
        "''onClick''" "JFunction 0", THEN conjunct2, THEN conjunct1]
  have a: "filterSensitiveData [''password''] heap_cyclic (JRef 0) 4 3 =
     (JStr ''[Max Depth Reached]'', heap_cyclic)"
    using deep by simp
  have b: "filterSensitiveData [''password''] heap_cyclic (JRef 1) 3 3 =
       (JRef 2, heap_cyclic @ [JArray [JStr ''[Max Depth Reached]'', JStr ''[Max Depth Reached]'']])"
    using arr by (simp add: heap_cyclic_def)
  have c: "get_prop (snd (filterSensitiveData [''password''] heap_cyclic (JRef 0) 3 3))
        (fst (filterSensitiveData [''password''] heap_cyclic (JRef 0) 3 3)) ''self''
       = JStr ''[Max Depth Reached]''"
    using self low by (simp add: heap_cyclic_def split: prod.splits)
  have d: "get_prop (snd (filterSensitiveData [''password''] heap_handlers (JRef 0) 0 3))
        (fst (filterSensitiveData [''password''] heap_handlers (JRef 0) 0 3)) ''onClick''
       = JStr ''[Function]''"
    using click low by (simp add: heap_handlers_def split: prod.splits)
  have e: "length (snd (filterSensitiveData [''password''] heap_cyclic (JRef 0) 0 3)) = 13"
    by code_simp
  from a b c d e show ?thesis by blast
qed

text \<open>
  The claim as it was stated fails in two places.  A function-valued entry under a
  sensitive key is replaced by \<^verbatim>\<open>'[Filtered]'\<close>, not by \<^verbatim>\<open>'[Function]'\<close>; and a
  function-valued entry nested at depth 4, deeper than the maximum, is replaced by
  \<^verbatim>\<open>'[Function]'\<close>, not by \<^verbatim>\<open>'[Max Depth Reached]'\<close>.
\<close>

theorem filterSensitiveData_markers_counterexample:
  "typeof (get_prop heap_handlers (JRef 0) ''password'') = TFunction
   \<and> get_prop (snd (filterSensitiveData [''password''] heap_handlers (JRef 0) 0 3))
        (fst (filterSensitiveData [''password''] heap_handlers (JRef 0) 0 3)) ''password''
       = JStr ''[Filtered]''
   \<and> typeof (getValueByPath heap_deep (JRef 0) ''a.b.c.f'') = TFunction
   \<and> getValueByPath (snd (filterSensitiveData [''password''] heap_deep (JRef 0) 0 3))
        (fst (filterSensitiveData [''password''] heap_deep (JRef 0) 0 3)) ''a.b.c.f''
       = JStr ''[Function]''
   \<and> getValueByPath (snd (filterSensitiveData [''password''] heap_deep (JRef 0) 0 3))
        (fst (filterSensitiveData [''password''] heap_deep (JRef 0) 0 3)) ''a.b.c.n''
       = JStr ''[Max Depth Reached]''"
  by code_simp

subsection \<open>The recorded snapshot\<close>

lemma last_addMiddlewareExecution:
  "middlewareExecutions (addMiddlewareExecution s e) \<noteq> []
   \<and> last (middlewareExecutions (addMiddlewareExecution s e)) = e"
proof -
  have "last (tl (xs @ [e])) = e" if "length (xs @ [e]) > maxRecords" for xs :: "MiddlewareExecutionRecord list"
    using that by (cases xs) (auto simp: maxRecords_def)
  moreover have "tl (xs @ [e]) \<noteq> []" if "length (xs @ [e]) > maxRecords" for xs :: "MiddlewareExecutionRecord list"
    using that by (cases xs) (auto simp: maxRecords_def)
  ultimately show ?thesis
    by (auto simp: addMiddlewareExecution_def Let_def)
qed

lemma record_debug:
  assumes "isDevelopment env" "has_window env"
  shows "recordMiddlewareExecution env sens store h options mw index t0 t1 res err =
           (addMiddlewareExecution store
              \<lparr> mx_id = string_of_nat (now env) @ ''-'' @ string_of_nat index @ ''-''
                         @ random_suffix env,
                mx_timestamp = t0,
                mx_middlewareName = getMiddlewareName mw index,
                middlewareIndex = index,
                mx_contextType = contextType options,
                mx_contextPath = contextPath options,
                mx_chunkName = chunkName options,
                mx_result = res,
                duration = t1 - t0,
                error = err,
                sanitizedContext = fst (sanitizeContext sens h (context_obj options)) \<rparr>,
            snd (sanitizeContext sens h (context_obj options)))"
  using assms by (simp add: recordMiddlewareExecution_def Let_def split: prod.splits)

lemma lower_char_idem: "lower_char (lower_char c) = lower_char c"
  by (simp add: lower_char_def)

lemma toLowerCase_idem: "toLowerCase (toLowerCase s) = toLowerCase s"
  by (simp add: toLowerCase_def lower_char_idem)

lemma not_matches_sensitive:
  "\<not> matches_sensitive sens key \<Longrightarrow> toLowerCase key \<notin> set sens"
  unfolding matches_sensitive_def by (metis imageI toLowerCase_idem)

text \<open>
  Claim C3, as the code has it.  In debug mode (a development build with a
  \<^verbatim>\<open>window\<close>) \<^verbatim>\<open>recordMiddlewareExecution\<close> stores a record with a snapshot of the
  context; the snapshot is read here along key paths, as \<^verbatim>\<open>getValueByPath\<close> reads them.
  Take an object that is reached from the context by a path \<open>ks\<close> of at most three
  steps, none of them through a sensitive key, and an entry \<open>(k, v)\<close> of that object
  (the context itself is the case of the empty path).  If the lower-cased key is in the
  sensitive list, the snapshot has \<^verbatim>\<open>'[Filtered]'\<close> at \<open>ks.k\<close>.  If the key equals no
  entry of the list in any letter case and \<open>v\<close> is a scalar, the snapshot has \<open>v\<close> at
  \<open>ks.k\<close> when the path has fewer than three steps, and \<^verbatim>\<open>'[Max Depth Reached]'\<close>
  when it has three.  The code lower-cases the key and compares it with the list as it
  is; a key that equals an entry only up to letter case is left out of the statement.
\<close>

theorem recorded_snapshot_redacts:
  assumes "isDevelopment env" "has_window env"
    and "context_obj options < length h" "h ! context_obj options = JObject ces"
      "distinct (map fst ces)"
    and "clear_path sens h (JRef (context_obj options)) ks" "length ks \<le> 3"
      "walk_keys h (JRef (context_obj options)) ks = JRef a"
    and "a < length h" "h ! a = JObject es" "distinct (map fst es)" "(k, v) \<in> set es"
  shows "let (store', h') =
               recordMiddlewareExecution env sens store h options mw index t0 t1 res err;
             snapshot = sanitizedContext (last (getMiddlewareExecutions store'))
         in getMiddlewareExecutions store' \<noteq> []
            \<and> (toLowerCase k \<in> set sens \<longrightarrow>
                 walk_keys h' snapshot (ks @ [k]) = JStr ''[Filtered]'')
            \<and> (\<not> matches_sensitive sens k \<and> is_scalar v \<and> length ks < 3 \<longrightarrow>
                 walk_keys h' snapshot (ks @ [k]) = v)
            \<and> (\<not> matches_sensitive sens k \<and> typeof v \<noteq> TFunction \<and> length ks = 3 \<longrightarrow>
                 walk_keys h' snapshot (ks @ [k]) = JStr ''[Max Depth Reached]'')"
proof -
  let ?c = "context_obj options"
  let ?y = "walk_keys (snd (sanitizeContext sens h ?c)) (JRef (length h)) (ks @ [k])"
  have ok: "entry_ok sens (length ks) 3 k v ?y"
    by (rule sanitizeContext_path [OF assms(3-6,8-12,7)])
  from sanitizeContext_frame [of h sens ?c]
  have snap: "fst (sanitizeContext sens h ?c) = JRef (length h)" by simp
  from ok have "(toLowerCase k \<in> set sens \<longrightarrow> ?y = JStr ''[Filtered]'')
     \<and> (\<not> matches_sensitive sens k \<and> is_scalar v \<and> length ks < 3 \<longrightarrow> ?y = v)
     \<and> (\<not> matches_sensitive sens k \<and> typeof v \<noteq> TFunction \<and> length ks = 3 \<longrightarrow>
          ?y = JStr ''[Max Depth Reached]'')"
    by (auto simp: entry_ok_def dest: not_matches_sensitive)
  with assms(1,2) snap show ?thesis
    by (simp add: record_debug getMiddlewareExecutions_def last_addMiddlewareExecution)
qed

theorem recorded_snapshot_redacts_witness:
  "isDevelopment env_debug \<and> has_window env_debug
   \<and> (let (store', h') =
            recordMiddlewareExecution env_debug [''password'', ''token''] new_store heap_user
              options_user (createAuthMiddleware \<lparr> authPath = None, requireUser = None \<rparr>)
              0 10 12 True None;
          snapshot = sanitizedContext (last (getMiddlewareExecutions store'))
      in getValueByPath h' snapshot ''user.password'' = JStr ''[Filtered]''
         \<and> getValueByPath h' snapshot ''user.id'' = JStr ''u1'')
   \<and> (let (store', h') =
            recordMiddlewareExecution env_debug [''password'', ''token''] new_store heap_nested
              options_user (createAuthMiddleware \<lparr> authPath = None, requireUser = None \<rparr>)
              0 10 12 True None;
          snapshot = sanitizedContext (last (getMiddlewareExecutions store'))
      in getValueByPath h' snapshot ''a.b.c.n'' = JStr ''[Max Depth Reached]'')"
proof -
  let ?sens = "[''password'', ''token'']"
  let ?mw = "createAuthMiddleware \<lparr> authPath = None, requireUser = None \<rparr>"
  have env: "isDevelopment env_debug \<and> has_window env_debug"
    by (simp add: isDevelopment_def env_debug_def)
  have low: "toLowerCase ''password'' = ''password''" "toLowerCase ''id'' = ''id''"
    "toLowerCase ''user'' = ''user''" "toLowerCase ''token'' = ''token''"
    "toLowerCase ''a'' = ''a''" "toLowerCase ''b'' = ''b''" "toLowerCase ''c'' = ''c''"
    "toLowerCase ''n'' = ''n''"
    by (simp_all add: toLowerCase_def lower_char_def)
  have paths: "split_dot ''user.password'' = [''user''] @ [''password'']"
    "split_dot ''user.id'' = [''user''] @ [''id'']"
    "split_dot ''a.b.c.n'' = [''a'', ''b'', ''c''] @ [''n'']"
    by simp_all
  have e: "isDevelopment env_debug" "has_window env_debug" using env by simp_all
  have user: "context_obj options_user < length heap_user"
    "heap_user ! context_obj options_user = JObject [(''user'', JRef 1)]"
    "distinct (map fst [(''user'', JRef 1)])"
    "clear_path ?sens heap_user (JRef (context_obj options_user)) [''user'']"
    "length [''user''] \<le> 3"
    "walk_keys heap_user (JRef (context_obj options_user)) [''user''] = JRef 1"
    "1 < length heap_user"
    "heap_user ! 1 = JObject [(''password'', JStr ''secret123''), (''id'', JStr ''u1'')]"
    "distinct (map fst [(''password'', JStr ''secret123''), (''id'', JStr ''u1'')])"
    by (simp_all add: options_user_def heap_user_def heap_lookup_def get_prop_def
        object_prop_def low)
  have nested: "context_obj options_user < length heap_nested"
    "heap_nested ! context_obj options_user = JObject [(''apiKey'', JStr ''k1''), (''a'', JRef 1)]"
    "distinct (map fst [(''apiKey'', JStr ''k1''), (''a'', JRef 1)])"
    "clear_path ?sens heap_nested (JRef (context_obj options_user)) [''a'', ''b'', ''c'']"
    "length [''a'', ''b'', ''c''] \<le> 3"
    "walk_keys heap_nested (JRef (context_obj options_user)) [''a'', ''b'', ''c''] = JRef 3"
    "3 < length heap_nested"
    "heap_nested ! 3 = JObject [(''n'', JNum 5), (''d'', JRef 4)]"
    "distinct (map fst [(''n'', JNum 5), (''d'', JRef 4)])"
    by (simp_all add: options_user_def heap_nested_def heap_lookup_def get_prop_def
        object_prop_def low)
  have plain: "\<not> matches_sensitive ?sens ''id''" "\<not> matches_sensitive ?sens ''n''"
    by (simp_all add: matches_sensitive_def low)
  have mem: "(''password'', JStr ''secret123'')
               \<in> set [(''password'', JStr ''secret123''), (''id'', JStr ''u1'')]"
    "(''id'', JStr ''u1'') \<in> set [(''password'', JStr ''secret123''), (''id'', JStr ''u1'')]"
    "(''n'', JNum 5) \<in> set [(''n'', JNum 5), (''d'', JRef 4)]"
    by simp_all
  note password = recorded_snapshot_redacts [OF e user mem(1),
      of new_store ?mw 0 10 12 True None]
  note ident = recorded_snapshot_redacts [OF e user mem(2),
      of new_store ?mw 0 10 12 True None]
  note deep = recorded_snapshot_redacts [OF e nested mem(3),
      of new_store ?mw 0 10 12 True None]
  from password ident plain(1) have a: "let (store', h') =
            recordMiddlewareExecution env_debug ?sens new_store heap_user
              options_user ?mw 0 10 12 True None;
          snapshot = sanitizedContext (last (getMiddlewareExecutions store'))
      in getValueByPath h' snapshot ''user.password'' = JStr ''[Filtered]''
         \<and> getValueByPath h' snapshot ''user.id'' = JStr ''u1''"
    unfolding getValueByPath_def paths
    by (simp add: low Let_def del: walk_keys.simps split: prod.splits)
  from deep plain(2) have b: "let (store', h') =
            recordMiddlewareExecution env_debug ?sens new_store heap_nested
              options_user ?mw 0 10 12 True None;
          snapshot = sanitizedContext (last (getMiddlewareExecutions store'))
      in getValueByPath h' snapshot ''a.b.c.n'' = JStr ''[Max Depth Reached]''"
    unfolding getValueByPath_def paths
    by (simp add: Let_def del: walk_keys.simps split: prod.splits)
  from env a b show ?thesis by blast
qed

lemma sanitize_nested:
  "sanitizeContext [''password'', ''apiKey''] heap_nested 0 =
     (JRef 5, heap_nested @
       [JObject [(''apiKey'', JStr ''k1''), (''a'', JRef 7)],
        JObject [(''apiKey'', JStr ''k1''), (''a'', JRef 7)],
        JObject [(''b'', JRef 8)],
        JObject [(''c'', JRef 9)],
        JObject [(''n'', JStr ''[Max Depth Reached]''), (''d'', JStr ''[Max Depth Reached]'')]])"
  by code_simp

text \<open>
  The claim as it was stated fails in three places.  With \<^verbatim>\<open>apiKey\<close> in the sensitive
  list, the key \<^verbatim>\<open>apiKey\<close> of the context is stored with its value: the key is
  lower-cased before the test, the entry of the list is not.  The scalar at
  \<^verbatim>\<open>a.b.c.n\<close>, four levels below the context, is stored as
  \<^verbatim>\<open>'[Max Depth Reached]'\<close>.  And the sensitive key at \<^verbatim>\<open>a.b.c.d.password\<close> is not
  mapped to the marker: the object that holds it is replaced as a whole.
\<close>

theorem recorded_snapshot_counterexample:
  "getValueByPath heap_nested (JRef 0) ''apiKey'' = JStr ''k1''
   \<and> getValueByPath
        (snd (recordMiddlewareExecution env_debug [''password'', ''apiKey''] new_store
                heap_nested options_user
                (createAuthMiddleware \<lparr> authPath = None, requireUser = None \<rparr>)
                0 10 12 True None))
        (sanitizedContext (last (getMiddlewareExecutions
          (fst (recordMiddlewareExecution env_debug [''password'', ''apiKey''] new_store
                  heap_nested options_user
                  (createAuthMiddleware \<lparr> authPath = None, requireUser = None \<rparr>)
                  0 10 12 True None)))))
        ''apiKey'' = JStr ''k1''
   \<and> getValueByPath heap_nested (JRef 0) ''a.b.c.n'' = JNum 5
   \<and> getValueByPath
        (snd (recordMiddlewareExecution env_debug [''password'', ''apiKey''] new_store
                heap_nested options_user
                (createAuthMiddleware \<lparr> authPath = None, requireUser = None \<rparr>)
                0 10 12 True None))
        (sanitizedContext (last (getMiddlewareExecutions
          (fst (recordMiddlewareExecution env_debug [''password'', ''apiKey''] new_store
                  heap_nested options_user
                  (createAuthMiddleware \<lparr> authPath = None, requireUser = None \<rparr>)
                  0 10 12 True None)))))
        ''a.b.c.n'' = JStr ''[Max Depth Reached]''
   \<and> getValueByPath heap_nested (JRef 0) ''a.b.c.d.password'' = JStr ''secret123''
   \<and> getValueByPath
        (snd (recordMiddlewareExecution env_debug [''password'', ''apiKey''] new_store
                heap_nested options_user
                (createAuthMiddleware \<lparr> authPath = None, requireUser = None \<rparr>)
                0 10 12 True None))
        (sanitizedContext (last (getMiddlewareExecutions
          (fst (recordMiddlewareExecution env_debug [''password'', ''apiKey''] new_store
                  heap_nested options_user
                  (createAuthMiddleware \<lparr> authPath = None, requireUser = None \<rparr>)
                  0 10 12 True None)))))
        ''a.b.c.d.password'' = JUndefined"
proof -
  have env: "isDevelopment env_debug" "has_window env_debug"
    by (simp_all add: isDevelopment_def env_debug_def)
  have c: "context_obj options_user = 0" by (simp add: options_user_def)
  show ?thesis
    unfolding record_debug [OF env] c sanitize_nested
    by (simp add: getMiddlewareExecutions_def last_addMiddlewareExecution) code_simp
qed

subsection \<open>The copy shares nothing with the original\<close>




lemma set_update_subset: "set (AList.update k v es) \<subseteq> insert (k, v) (set es)"
  by (induction es) auto










subsection \<open>Recording only appends\<close>





section \<open>Properties of the extension registry\<close>

text \<open>
  Claim C9.  Registering an extension whose id is already registered returns a result
  with \<open>success = False\<close>, an error message that names the id, and no registered
  middleware; the registry that comes back is the registry that went in, so the
  extensions, the registrations and the three middleware lists are all unchanged.
\<close>

theorem register_duplicate_id_unchanged:
  assumes "ext_id ext \<in> set (map fst (extensions reg))"
  shows "register reg ext =
           (\<lparr> extension = ext, success = False,
              reg_error = Some (already_registered_message (ext_id ext)),
              registeredMiddleware = [] \<rparr>, reg)"
  using assms by (simp add: register_def)

theorem register_duplicate_id_unchanged_witness:
  "ext_id ext_a \<in> set (map fst (extensions (snd (register new_registry ext_a))))
   \<and> register (snd (register new_registry ext_a)) ext_a =
       (\<lparr> extension = ext_a, success = False,
          reg_error = Some (already_registered_message ''a''),
          registeredMiddleware = [] \<rparr>, snd (register new_registry ext_a))
   \<and> getPreMiddleware (snd (register (snd (register new_registry ext_a)) ext_a)) = [1]"
proof -
  have dup: "ext_id ext_a \<in> set (map fst (extensions (snd (register new_registry ext_a))))"
    by (simp add: register_def new_registry_def ext_a_def Let_def)
  from register_duplicate_id_unchanged [OF dup] dup show ?thesis
    by (simp add: getPreMiddleware_def) (simp add: register_def new_registry_def ext_a_def Let_def)
qed

lemma apply_calls:
  "preMiddleware (foldl apply_call reg calls) = preMiddleware reg @ pre_units calls
   \<and> postMiddleware (foldl apply_call reg calls) = postMiddleware reg @ post_units calls
   \<and> mergedMiddleware (foldl apply_call reg calls) = mergedMiddleware reg @ merged_units calls
   \<and> extensions (foldl apply_call reg calls) = extensions reg
   \<and> registrations (foldl apply_call reg calls) = registrations reg"
proof (induction calls arbitrary: reg)
  case Nil
  show ?case by simp
next
  case (Cons c calls)
  show ?case using Cons.IH [of "apply_call reg c"] by (cases c) simp_all
qed

lemma register_lists:
  "ext_id ext \<notin> set (map fst (extensions reg)) \<Longrightarrow>
     preMiddleware (snd (register reg ext)) = preMiddleware reg @ pre_units (init_calls ext)
     \<and> postMiddleware (snd (register reg ext)) = postMiddleware reg @ post_units (init_calls ext)
     \<and> mergedMiddleware (snd (register reg ext)) =
         mergedMiddleware reg @ merged_units (init_calls ext)"
  by (simp add: register_def Let_def apply_calls split: outcome.splits)

lemma register_duplicate_lists:
  "ext_id ext \<in> set (map fst (extensions reg)) \<Longrightarrow> snd (register reg ext) = reg"
  by (simp add: register_def)

lemma register_prefix:
  "prefix (preMiddleware reg) (preMiddleware (snd (register reg ext)))
   \<and> prefix (postMiddleware reg) (postMiddleware (snd (register reg ext)))
   \<and> prefix (mergedMiddleware reg) (mergedMiddleware (snd (register reg ext)))"
proof (cases "ext_id ext \<in> set (map fst (extensions reg))")
  case True
  then show ?thesis by (simp add: register_duplicate_lists)
next
  case False
  then show ?thesis by (simp add: register_lists)
qed

lemma register_keys:
  "set (map fst (extensions (snd (register reg ext)))) \<subseteq> insert (ext_id ext) (set (map fst (extensions reg)))"
  by (auto simp: register_def Let_def apply_calls split: outcome.splits dest: set_update_subset [THEN subsetD])

lemma registrations_prefix:
  "list_all is_register ops \<Longrightarrow>
   prefix (preMiddleware reg) (preMiddleware (run_registry_ops ops reg))
   \<and> prefix (postMiddleware reg) (postMiddleware (run_registry_ops ops reg))
   \<and> prefix (mergedMiddleware reg) (mergedMiddleware (run_registry_ops ops reg))"
  unfolding run_registry_ops_def
proof (induction ops arbitrary: reg)
  case Nil
  show ?case by simp
next
  case (Cons op ops)
  then obtain ext where op: "op = Register ext" by (cases op) auto
  from Cons.IH [of "snd (register reg ext)"] Cons.prems register_prefix [of reg ext] op
  show ?case by (auto intro: prefix_order.trans)
qed

text \<open>
  Claim C6, as the code has it.  The three registration functions only append.  In every
  sequence of registrations each of the three lists grows at its end only: what was
  registered before stays, in its order, as a prefix.  Two extensions with different new
  ids that register one after the other leave their units in registration order.  An
  unregistration either fails and changes nothing, or succeeds and then empties all
  three lists, whichever extension had filled them.
\<close>

theorem registration_appends_in_order:
  "(list_all is_register ops \<longrightarrow>
      prefix (getPreMiddleware reg) (getPreMiddleware (run_registry_ops ops reg))
      \<and> prefix (getPostMiddleware reg) (getPostMiddleware (run_registry_ops ops reg))
      \<and> prefix (getMergedMiddleware reg) (getMergedMiddleware (run_registry_ops ops reg)))
   \<and> (ext_id a \<notin> set (map fst (extensions reg)) \<and> ext_id b \<notin> set (map fst (extensions reg))
        \<and> ext_id a \<noteq> ext_id b \<longrightarrow>
      getPreMiddleware (run_registry_ops [Register a, Register b] reg) =
        getPreMiddleware reg @ pre_units (init_calls a) @ pre_units (init_calls b)
      \<and> getPostMiddleware (run_registry_ops [Register a, Register b] reg) =
        getPostMiddleware reg @ post_units (init_calls a) @ post_units (init_calls b)
      \<and> getMergedMiddleware (run_registry_ops [Register a, Register b] reg) =
        getMergedMiddleware reg @ merged_units (init_calls a) @ merged_units (init_calls b))
   \<and> (if fst (unregister reg i)
       then getPreMiddleware (snd (unregister reg i)) = []
            \<and> getPostMiddleware (snd (unregister reg i)) = []
            \<and> getMergedMiddleware (snd (unregister reg i)) = []
       else snd (unregister reg i) = reg)"
proof -
  have regs: "list_all is_register ops \<longrightarrow>
      prefix (getPreMiddleware reg) (getPreMiddleware (run_registry_ops ops reg))
      \<and> prefix (getPostMiddleware reg) (getPostMiddleware (run_registry_ops ops reg))
      \<and> prefix (getMergedMiddleware reg) (getMergedMiddleware (run_registry_ops ops reg))"
    using registrations_prefix [of ops reg]
    by (simp add: getPreMiddleware_def getPostMiddleware_def getMergedMiddleware_def)
  have two: "getPreMiddleware (run_registry_ops [Register a, Register b] reg) =
        getPreMiddleware reg @ pre_units (init_calls a) @ pre_units (init_calls b)
      \<and> getPostMiddleware (run_registry_ops [Register a, Register b] reg) =
        getPostMiddleware reg @ post_units (init_calls a) @ post_units (init_calls b)
      \<and> getMergedMiddleware (run_registry_ops [Register a, Register b] reg) =
        getMergedMiddleware reg @ merged_units (init_calls a) @ merged_units (init_calls b)"
    if ab: "ext_id a \<notin> set (map fst (extensions reg)) \<and> ext_id b \<notin> set (map fst (extensions reg))
        \<and> ext_id a \<noteq> ext_id b"
  proof -
    from ab register_keys [of reg a]
    have b: "ext_id b \<notin> set (map fst (extensions (snd (register reg a))))" by auto
    from ab register_lists [of a reg] register_lists [OF b]
    show ?thesis
      by (simp add: run_registry_ops_def getPreMiddleware_def getPostMiddleware_def
          getMergedMiddleware_def)
  qed
  have un: "if fst (unregister reg i)
       then getPreMiddleware (snd (unregister reg i)) = []
            \<and> getPostMiddleware (snd (unregister reg i)) = []
            \<and> getMergedMiddleware (snd (unregister reg i)) = []
       else snd (unregister reg i) = reg"
    by (simp add: unregister_def getPreMiddleware_def getPostMiddleware_def
        getMergedMiddleware_def split: option.splits outcome.splits)
  from regs two un show ?thesis by blast
qed

theorem registration_appends_in_order_witness:
  "list_all is_register [Register ext_a, Register ext_b, Register ext_a]
   \<and> ext_id ext_a \<notin> set (map fst (extensions (new_registry :: nat ExtensionRegistry)))
   \<and> ext_id ext_b \<notin> set (map fst (extensions (new_registry :: nat ExtensionRegistry)))
   \<and> ext_id ext_a \<noteq> ext_id ext_b
   \<and> getPreMiddleware (run_registry_ops [Register ext_a, Register ext_b] new_registry) = [1, 2]
   \<and> getPreMiddleware (run_registry_ops [Register ext_a, Register ext_b, Register ext_a] new_registry)
       = [1, 2]
   \<and> fst (unregister (run_registry_ops [Register ext_a, Register ext_b] new_registry) ''b'')
   \<and> \<not> fst (unregister (run_registry_ops [Register ext_a, Register ext_b] new_registry) ''c'')"
proof -
  note inst = registration_appends_in_order
    [of "[Register ext_a, Register ext_b, Register ext_a]" new_registry ext_a ext_b]
  have ids: "ext_id ext_a \<notin> set (map fst (extensions (new_registry :: nat ExtensionRegistry)))"
    "ext_id ext_b \<notin> set (map fst (extensions (new_registry :: nat ExtensionRegistry)))"
    "ext_id ext_a \<noteq> ext_id ext_b"
    by (simp_all add: new_registry_def ext_a_def ext_b_def)
  have regs: "list_all is_register [Register ext_a, Register ext_b, Register ext_a]"
    by simp
  have two: "getPreMiddleware (run_registry_ops [Register ext_a, Register ext_b] new_registry)
      = [1, 2]"
    using inst ids by (simp add: getPreMiddleware_def new_registry_def ext_a_def ext_b_def)
  have three: "getPreMiddleware
      (run_registry_ops [Register ext_a, Register ext_b, Register ext_a] new_registry) = [1, 2]"
    by (simp add: run_registry_ops_def register_def getPreMiddleware_def new_registry_def
        ext_a_def ext_b_def Let_def)
  have un: "fst (unregister (run_registry_ops [Register ext_a, Register ext_b] new_registry) ''b'')"
    "\<not> fst (unregister (run_registry_ops [Register ext_a, Register ext_b] new_registry) ''c'')"
    by (simp_all add: run_registry_ops_def register_def unregister_def new_registry_def
        ext_a_def ext_b_def Let_def)
  from regs ids two three un show ?thesis by blast
qed

text \<open>
  The claim as it was stated quantifies over unregistrations too, and there it fails:
  after the extensions \<open>a\<close> and \<open>b\<close> have registered one pre-unit each, unregistering
  \<open>b\<close> removes the unit of \<open>a\<close> as well, while \<open>a\<close> stays registered.
\<close>

theorem unregister_clears_other_extension_counterexample:
  "getPreMiddleware (run_registry_ops [Register ext_a, Register ext_b] new_registry) = [1, 2]
   \<and> getPreMiddleware
        (run_registry_ops [Register ext_a, Register ext_b, Unregister ''b''] new_registry) = []
   \<and> map fst (extensions
        (run_registry_ops [Register ext_a, Register ext_b, Unregister ''b''] new_registry)) = [''a'']"
  by (simp add: run_registry_ops_def register_def unregister_def getPreMiddleware_def
      new_registry_def ext_a_def ext_b_def Let_def)

section \<open>Properties of the security-headers middleware\<close>

lemma fold_update_map:
  "map_of (fold (\<lambda>(k, v). AList.update k v) es acc) = map_of acc ++ map_of (rev es)"
proof (induction es arbitrary: acc)
  case Nil
  show ?case by simp
next
  case (Cons e es)
  obtain k v where e: "e = (k, v)" by (cases e)
  have "map_of (fold (\<lambda>(k, v). AList.update k v) (e # es) acc)
      = map_of (AList.update k v acc) ++ map_of (rev es)"
    using Cons.IH [of "AList.update k v acc"] e by simp
  also have "\<dots> = map_of acc ++ map_of (rev (e # es))"
    by (simp add: e update_conv' map_add_upd_left [symmetric] del: map_add_upd_left)
  finally show ?case .
qed

lemma distinct_fold_update:
  "distinct (map fst acc) \<Longrightarrow> distinct (map fst (fold (\<lambda>(k, v). AList.update k v) es acc))"
  by (induction es arbitrary: acc) (auto simp: distinct_update)

lemma map_of_rev_distinct: "distinct (map fst xs) \<Longrightarrow> map_of (rev xs) = map_of xs"
proof (rule ext)
  fix k
  assume d: "distinct (map fst xs)"
  then have dr: "distinct (map fst (rev xs))" by (simp add: rev_map [symmetric])
  show "map_of (rev xs) k = map_of xs k"
  proof (cases "map_of xs k")
    case None
    then have "k \<notin> fst ` set xs" by (simp add: map_of_eq_None_iff)
    then have "map_of (rev xs) k = None" by (simp add: map_of_eq_None_iff)
    with None show ?thesis by simp
  next
    case (Some v)
    with d have "(k, v) \<in> set (rev xs)" by (auto dest: map_of_SomeD)
    with dr have "map_of (rev xs) k = Some v" by (simp add: map_of_eq_Some_iff)
    with Some show ?thesis by simp
  qed
qed

lemma resolve_headers_result:
  "r < length h \<Longrightarrow> h ! r = JObject acc \<Longrightarrow>
   resolve_headers h r hs =
     h[r := JObject (fold (\<lambda>(k, v). AList.update k v) (resolved_entries hs) acc)]"
proof (induction h r hs arbitrary: acc rule: resolve_headers.induct)
  case (1 h r)
  then show ?case by (metis fold_simps(1) list_update_id resolve_headers.simps(1) resolved_entries.simps(1))
next
  case (2 h r key s rest)
  from 2(2,3) have "assign_prop h r key (JStr s) = h[r := JObject (AList.update key (JStr s) acc)]"
    by (rule assign_prop_object)
  with 2(1) [of "AList.update key (JStr s) acc"] 2(2,3) show ?case by simp
next
  case (3 h r key s rest)
  from 3(2,3) have "assign_prop h r key (JStr s) = h[r := JObject (AList.update key (JStr s) acc)]"
    by (rule assign_prop_object)
  with 3(1) [of "AList.update key (JStr s) acc"] 3(2,3) show ?case by simp
next
  case (4 h r key e rest)
  then show ?case by simp
qed

lemma heap_closed_iff:
  "heap_closed h \<longleftrightarrow> (\<forall>a < length h. \<forall>b \<in> set (obj_refs (h ! a)). b < length h)"
proof
  assume c: "heap_closed h"
  show "\<forall>a < length h. \<forall>b \<in> set (obj_refs (h ! a)). b < length h"
  proof (intro allI impI)
    fix a assume "a < length h"
    then have "h ! a \<in> set h" by simp
    with c show "\<forall>b \<in> set (obj_refs (h ! a)). b < length h"
      by (simp add: heap_closed_def list_all_iff)
  qed
next
  assume r: "\<forall>a < length h. \<forall>b \<in> set (obj_refs (h ! a)). b < length h"
  have "\<forall>b \<in> set (obj_refs ob). b < length h" if "ob \<in> set h" for ob
    using that r by (metis in_set_conv_nth)
  then show "heap_closed h" by (simp add: heap_closed_def list_all_iff)
qed

lemma object_prop_refs:
  "object_prop es k = JRef b \<Longrightarrow> b \<in> set (obj_refs (JObject es))"
  by (auto simp: object_prop_def split: option.splits dest!: map_of_SomeD) force

lemma array_prop_refs:
  assumes "array_prop xs k = JRef b"
  shows "b \<in> set (obj_refs (JArray xs))"
proof -
  from assms obtain i where "i < length xs" "xs ! i = JRef b"
    by (auto simp: array_prop_def split: option.splits if_splits)
  then have "JRef b \<in> set xs" by (metis nth_mem)
  then show ?thesis by force
qed

lemma get_prop_in_heap:
  assumes "heap_closed h"
  shows "in_heap h (get_prop h v k)"
proof (cases "get_prop h v k")
  case (JRef b)
  then obtain a ob where a: "v = JRef a" "a < length h" "h ! a = ob"
    by (auto simp: get_prop_def heap_lookup_def split: jsval.splits if_splits)
  with JRef have "b \<in> set (obj_refs ob)"
    by (cases ob) (auto simp: get_prop_def heap_lookup_def dest: object_prop_refs array_prop_refs)
  with assms a JRef show ?thesis by (auto simp: heap_closed_iff in_heap_def)
qed (simp_all add: in_heap_def)

lemma get_prop_extend:
  "in_heap h v \<Longrightarrow> get_prop (h @ xs) v k = get_prop h v k"
  by (cases v) (simp_all add: in_heap_def get_prop_def heap_lookup_def nth_append)

lemma own_entries_extend:
  "in_heap h v \<Longrightarrow> own_entries (h @ xs) v = own_entries h v"
  by (cases v) (simp_all add: in_heap_def own_entries_def heap_lookup_def nth_append)

lemma in_heap_addr: "a < length h \<Longrightarrow> in_heap h (JRef a)"
  by (simp add: in_heap_def)

lemma securityHeaders_handler_fresh_entry:
  assumes closed: "heap_closed h" and ctx: "ctx < length h" "h ! ctx = JObject es"
    and falsy: "\<not> truthy (get_prop h (JRef ctx) SECURITY_HEADERS_KEY)"
  shows "securityHeaders_handler config h ctx =
    (Returns (RBool True),
     (h @ [JObject (fold (\<lambda>(k, v). AList.update k v) (resolved_entries (headers config)) []),
           JObject [(''headers'', JRef (length h)),
                    (''overwrite'',
                     JBool (case overwrite config of Some b \<Rightarrow> b | None \<Rightarrow> False))]])
       [ctx := JObject (AList.update SECURITY_HEADERS_KEY (JRef (Suc (length h))) es)])"
proof -
  let ?R = "fold (\<lambda>(k, v). AList.update k v) (resolved_entries (headers config)) []"
  have h2: "resolve_headers (h @ [JObject []]) (length h) (headers config) = h @ [JObject ?R]"
    using resolve_headers_result [of "length h" "h @ [JObject []]" "[]" "headers config"]
    by simp
  have ex2: "get_prop (h @ [JObject ?R]) (JRef ctx) SECURITY_HEADERS_KEY
      = get_prop h (JRef ctx) SECURITY_HEADERS_KEY"
    using ctx by (simp add: get_prop_extend in_heap_addr)
  have asg: "assign_prop (h @ [JObject ?R, ob]) ctx SECURITY_HEADERS_KEY v
      = (h @ [JObject ?R, ob])[ctx := JObject (AList.update SECURITY_HEADERS_KEY v es)]" for ob v
    using ctx by (simp add: assign_prop_object nth_append)
  show ?thesis
    using falsy
    by (simp add: securityHeaders_handler_def alloc_def Let_def h2 ex2 asg)
qed

lemma securityHeaders_handler_merge:
  assumes closed: "heap_closed h" and ctx: "ctx < length h" "h ! ctx = JObject es"
    and truthy: "truthy (get_prop h (JRef ctx) SECURITY_HEADERS_KEY)"
  shows "securityHeaders_handler config h ctx =
    (Returns (RBool True),
     (h @ [JObject (fold (\<lambda>(k, v). AList.update k v) (resolved_entries (headers config)) []),
           JObject
             (if (case overwrite config of Some b \<Rightarrow> b | None \<Rightarrow> False)
              then fold (\<lambda>(k, v). AList.update k v)
                     (fold (\<lambda>(k, v). AList.update k v) (resolved_entries (headers config)) [])
                     (fold (\<lambda>(k, v). AList.update k v)
                        (own_entries h
                           (get_prop h (get_prop h (JRef ctx) SECURITY_HEADERS_KEY) ''headers'')) [])
              else fold (\<lambda>(k, v). AList.update k v)
                     (own_entries h
                        (get_prop h (get_prop h (JRef ctx) SECURITY_HEADERS_KEY) ''headers''))
                     (fold (\<lambda>(k, v). AList.update k v)
                        (fold (\<lambda>(k, v). AList.update k v) (resolved_entries (headers config)) [])
                        [])),
           JObject [(''headers'', JRef (Suc (length h))),
                    (''overwrite'',
                     if (case overwrite config of Some b \<Rightarrow> b | None \<Rightarrow> False)
                     then JBool True
                     else get_prop h (get_prop h (JRef ctx) SECURITY_HEADERS_KEY) ''overwrite'')]])
       [ctx := JObject (AList.update SECURITY_HEADERS_KEY (JRef (Suc (Suc (length h)))) es)])"
proof -
  let ?R = "fold (\<lambda>(k, v). AList.update k v) (resolved_entries (headers config)) []"
  let ?existing = "get_prop h (JRef ctx) SECURITY_HEADERS_KEY"
  let ?eh = "get_prop h ?existing ''headers''"
  let ?E = "own_entries h ?eh"
  let ?n = "length h"
  have h2: "resolve_headers (h @ [JObject []]) ?n (headers config) = h @ [JObject ?R]"
    using resolve_headers_result [of "length h" "h @ [JObject []]" "[]" "headers config"]
    by simp
  have inh: "in_heap h ?existing" "in_heap h ?eh"
    using closed by (simp_all add: get_prop_in_heap)
  have ex2: "get_prop (h @ [JObject ?R]) (JRef ctx) SECURITY_HEADERS_KEY = ?existing"
    using ctx by (simp add: get_prop_extend in_heap_addr)
  have eh2: "get_prop (h @ [JObject ?R]) ?existing ''headers'' = ?eh"
    using inh by (simp add: get_prop_extend)
  let ?h3 = "h @ [JObject ?R, JObject []]"
  have own_eh: "own_entries (h @ xs) ?eh = ?E" for xs
    using inh by (simp add: own_entries_extend)
  have own_R: "own_entries ((h @ [JObject ?R, ob])) (JRef ?n) = ?R" for ob
    by (simp add: own_entries_def heap_lookup_def nth_append)
  have assign1: "object_assign ?h3 (Suc ?n) src =
      h @ [JObject ?R, JObject (fold (\<lambda>(k, v). AList.update k v) (own_entries ?h3 src) [])]" for src
    unfolding object_assign_def
    using fold_assign_prop [of "Suc ?n" ?h3 "[]" "own_entries ?h3 src"]
    by (simp add: nth_append list_update_append)
  have assign2: "object_assign (h @ [JObject ?R, JObject acc]) (Suc ?n) src =
      h @ [JObject ?R, JObject (fold (\<lambda>(k, v). AList.update k v)
             (own_entries (h @ [JObject ?R, JObject acc]) src) acc)]" for src acc
    unfolding object_assign_def
    using fold_assign_prop [of "Suc ?n" "h @ [JObject ?R, JObject acc]" acc
        "own_entries (h @ [JObject ?R, JObject acc]) src"]
    by (simp add: nth_append list_update_append)
  have ow_prop: "get_prop (h @ xs) ?existing ''overwrite'' = get_prop h ?existing ''overwrite''" for xs
    using inh by (simp add: get_prop_extend)
  have asg: "assign_prop (h @ [a, b, c]) ctx SECURITY_HEADERS_KEY v
      = (h @ [a, b, c])[ctx := JObject (AList.update SECURITY_HEADERS_KEY v es)]" for a b c v
    using ctx by (simp add: assign_prop_object nth_append)
  have own_eh3: "own_entries (h @ [a, b]) ?eh = ?E" for a b
    using own_eh [of "[a, b]"] by simp
  have ow3: "get_prop (h @ [a, b]) ?existing ''overwrite'' = get_prop h ?existing ''overwrite''" for a b
    using ow_prop [of "[a, b]"] by simp
  show ?thesis
    using truthy
    by (simp add: securityHeaders_handler_def alloc_def Let_def h2 ex2 eh2 assign2 own_eh3
        own_R ow3 asg)
qed

lemma falsy_get_prop: "\<not> truthy v \<Longrightarrow> get_prop h v k = JUndefined"
  by (cases v) (simp_all add: get_prop_def)

lemma resolved_map:
  "map_of (fold (\<lambda>(k, v). AList.update k v) (resolved_entries hs) []) =
     map_of (rev (resolved_entries hs))"
  "map_of (rev (fold (\<lambda>(k, v). AList.update k v) (resolved_entries hs) [])) =
     map_of (rev (resolved_entries hs))"
proof -
  show a: "map_of (fold (\<lambda>(k, v). AList.update k v) (resolved_entries hs) []) =
     map_of (rev (resolved_entries hs))"
    by (simp add: fold_update_map)
  have "distinct (map fst (fold (\<lambda>(k, v). AList.update k v) (resolved_entries hs) []))"
    by (rule distinct_fold_update) simp
  from map_of_rev_distinct [OF this] a
  show "map_of (rev (fold (\<lambda>(k, v). AList.update k v) (resolved_entries hs) [])) =
     map_of (rev (resolved_entries hs))"
    by simp
qed

text \<open>
  Claim C10.  The unit made by \<^verbatim>\<open>securityHeadersMiddleware\<close> returns the boolean
  \<^verbatim>\<open>true\<close> for every configuration, heap and context; no branch denies or throws, and a
  header function that throws contributes no header.  On a context that is a plain
  object, in a heap without dangling references, the unit changes no object that was
  there except the context, and in the context only the entry under the security-headers
  key.  The new entry holds the merged headers: with \<open>overwrite\<close> the resolved headers
  win over those of an existing entry, without it the existing ones win; and its
  \<open>overwrite\<close> is the configured flag or, when that is false and an entry existed, the
  flag of that entry.
\<close>

theorem securityHeaders_always_allows:
  "fst (invoke (securityHeadersMiddleware config) h ctx) = Returns (RBool True)
   \<and> (heap_closed h \<and> ctx < length h \<and> h ! ctx = JObject es \<longrightarrow>
       (let h' = snd (invoke (securityHeadersMiddleware config) h ctx);
            ow = (case overwrite config of Some b \<Rightarrow> b | None \<Rightarrow> False);
            existing = get_prop h (JRef ctx) SECURITY_HEADERS_KEY;
            old_headers = map_of (rev (own_entries h (get_prop h existing ''headers'')));
            new_headers = map_of (rev (resolved_entries (headers config)));
            entry = get_prop h' (JRef ctx) SECURITY_HEADERS_KEY
        in take (length h) h' = h[ctx := JObject (AList.update SECURITY_HEADERS_KEY entry es)]
           \<and> get_prop h' (get_prop h' entry ''headers'') k =
               (case (if ow then old_headers ++ new_headers else new_headers ++ old_headers) k of
                  Some v \<Rightarrow> v
                | None \<Rightarrow> JUndefined)
           \<and> get_prop h' entry ''overwrite'' =
               (if truthy existing
                then (if ow then JBool True else get_prop h existing ''overwrite'')
                else JBool ow)))"
proof -
  have allow: "fst (invoke (securityHeadersMiddleware config) h ctx) = Returns (RBool True)"
    by (simp add: securityHeadersMiddleware_def createMiddleware_def
        securityHeaders_handler_def Let_def split: prod.splits)
  have rest: "let h' = snd (invoke (securityHeadersMiddleware config) h ctx);
            ow = (case overwrite config of Some b \<Rightarrow> b | None \<Rightarrow> False);
            existing = get_prop h (JRef ctx) SECURITY_HEADERS_KEY;
            old_headers = map_of (rev (own_entries h (get_prop h existing ''headers'')));
            new_headers = map_of (rev (resolved_entries (headers config)));
            entry = get_prop h' (JRef ctx) SECURITY_HEADERS_KEY
        in take (length h) h' = h[ctx := JObject (AList.update SECURITY_HEADERS_KEY entry es)]
           \<and> get_prop h' (get_prop h' entry ''headers'') k =
               (case (if ow then old_headers ++ new_headers else new_headers ++ old_headers) k of
                  Some v \<Rightarrow> v
                | None \<Rightarrow> JUndefined)
           \<and> get_prop h' entry ''overwrite'' =
               (if truthy existing
                then (if ow then JBool True else get_prop h existing ''overwrite'')
                else JBool ow)"
    if wf: "heap_closed h" "ctx < length h" "h ! ctx = JObject es"
  proof (cases "truthy (get_prop h (JRef ctx) SECURITY_HEADERS_KEY)")
    case False
    let ?R = "fold (\<lambda>(k, v). AList.update k v) (resolved_entries (headers config)) []"
    let ?ow = "case overwrite config of Some b \<Rightarrow> b | None \<Rightarrow> False"
    let ?h' = "(h @ [JObject ?R, JObject [(''headers'', JRef (length h)), (''overwrite'', JBool ?ow)]])
       [ctx := JObject (AList.update SECURITY_HEADERS_KEY (JRef (Suc (length h))) es)]"
    from securityHeaders_handler_fresh_entry [OF wf False, of config]
    have res: "snd (invoke (securityHeadersMiddleware config) h ctx) = ?h'"
      by (simp add: securityHeadersMiddleware_def createMiddleware_def)
    have old: "own_entries h (get_prop h (get_prop h (JRef ctx) SECURITY_HEADERS_KEY) ''headers'')
        = []"
      using False by (simp add: falsy_get_prop own_entries_def)
    have e1: "get_prop ?h' (JRef ctx) SECURITY_HEADERS_KEY = JRef (Suc (length h))"
      using wf(2) by (simp add: get_prop_def heap_lookup_def object_prop_def update_conv')
    have e2: "get_prop ?h' (JRef (Suc (length h))) ''headers'' = JRef (length h)"
      "get_prop ?h' (JRef (Suc (length h))) ''overwrite'' = JBool ?ow"
      using wf(2) by (simp_all add: get_prop_def heap_lookup_def object_prop_def nth_append)
    have e3: "get_prop ?h' (JRef (length h)) k = object_prop ?R k"
      using wf(2) by (simp add: get_prop_def heap_lookup_def nth_append)
    have e5: "take (length h) ?h' =
        h[ctx := JObject (AList.update SECURITY_HEADERS_KEY (JRef (Suc (length h))) es)]"
      by (simp add: take_update_swap)
    show ?thesis
      unfolding Let_def res e1 e2 e3 e5 old
      using False by (simp add: object_prop_def resolved_map)
  next
    case True
    let ?R = "fold (\<lambda>(k, v). AList.update k v) (resolved_entries (headers config)) []"
    let ?ow = "case overwrite config of Some b \<Rightarrow> b | None \<Rightarrow> False"
    let ?existing = "get_prop h (JRef ctx) SECURITY_HEADERS_KEY"
    let ?E = "own_entries h (get_prop h ?existing ''headers'')"
    let ?M = "if ?ow
              then fold (\<lambda>(k, v). AList.update k v) ?R (fold (\<lambda>(k, v). AList.update k v) ?E [])
              else fold (\<lambda>(k, v). AList.update k v) ?E (fold (\<lambda>(k, v). AList.update k v) ?R [])"
    let ?mo = "if ?ow then JBool True else get_prop h ?existing ''overwrite''"
    let ?h' = "(h @ [JObject ?R, JObject ?M,
                    JObject [(''headers'', JRef (Suc (length h))), (''overwrite'', ?mo)]])
       [ctx := JObject (AList.update SECURITY_HEADERS_KEY (JRef (Suc (Suc (length h)))) es)]"
    from securityHeaders_handler_merge [OF wf True, of config]
    have res: "snd (invoke (securityHeadersMiddleware config) h ctx) = ?h'"
      by (simp add: securityHeadersMiddleware_def createMiddleware_def)
    have e1: "get_prop ?h' (JRef ctx) SECURITY_HEADERS_KEY = JRef (Suc (Suc (length h)))"
      using wf(2) by (simp add: get_prop_def heap_lookup_def object_prop_def update_conv')
    have e2: "get_prop ?h' (JRef (Suc (Suc (length h)))) ''headers'' = JRef (Suc (length h))"
      "get_prop ?h' (JRef (Suc (Suc (length h)))) ''overwrite'' = ?mo"
      using wf(2) by (simp_all add: get_prop_def heap_lookup_def object_prop_def nth_append)
    have e3: "get_prop ?h' (JRef (Suc (length h))) k = object_prop ?M k"
      using wf(2) by (simp add: get_prop_def heap_lookup_def nth_append)
    have e5: "take (length h) ?h' =
        h[ctx := JObject (AList.update SECURITY_HEADERS_KEY (JRef (Suc (Suc (length h)))) es)]"
      by (simp add: take_update_swap)
    have m: "map_of ?M = (if ?ow then map_of (rev ?E) ++ map_of (rev (resolved_entries (headers config)))
                          else map_of (rev (resolved_entries (headers config))) ++ map_of (rev ?E))"
      by (simp add: fold_update_map resolved_map)
    show ?thesis
      unfolding Let_def res e1 e2 e3 e5
      using True by (simp add: object_prop_def m)
  qed
  from allow rest show ?thesis by blast
qed

theorem securityHeaders_always_allows_witness:
  "heap_closed heap_headers \<and> 0 < length heap_headers
   \<and> fst (invoke (securityHeadersMiddleware config_frame) heap_headers 0) = Returns (RBool True)
   \<and> get_prop (snd (invoke (securityHeadersMiddleware config_frame) heap_headers 0))
        (get_prop (snd (invoke (securityHeadersMiddleware config_frame) heap_headers 0))
           (get_prop (snd (invoke (securityHeadersMiddleware config_frame) heap_headers 0))
              (JRef 0) SECURITY_HEADERS_KEY) ''headers'') ''X-Existing'' = JStr ''value''
   \<and> get_prop (snd (invoke (securityHeadersMiddleware config_frame) heap_headers 0))
        (get_prop (snd (invoke (securityHeadersMiddleware config_frame) heap_headers 0))
           (JRef 0) SECURITY_HEADERS_KEY) ''overwrite'' = JBool True
   \<and> getValueByPath (snd (invoke (securityHeadersMiddleware config_frame) heap_headers 0))
        (JRef 0) ''_securityHeaders.headers.X-Frame-Options'' = JStr ''SAMEORIGIN''
   \<and> getValueByPath (snd (invoke (securityHeadersMiddleware config_frame) heap_headers 0))
        (JRef 0) ''_securityHeaders.headers.X-Request-Id'' = JUndefined
   \<and> getValueByPath (snd (invoke (securityHeadersMiddleware config_frame) heap_headers 0))
        (JRef 0) ''contextType'' = JStr ''http''"
proof -
  define h' where "h' = snd (invoke (securityHeadersMiddleware config_frame) heap_headers 0)"
  have closed: "heap_closed heap_headers" "0 < length heap_headers"
    "heap_headers ! 0 = JObject [(''contextType'', JStr ''http''), (''_securityHeaders'', JRef 1)]"
    by (simp_all add: heap_closed_def heap_headers_def)
  have existing: "get_prop heap_headers (JRef 0) SECURITY_HEADERS_KEY = JRef 1"
    "get_prop heap_headers (JRef 1) ''headers'' = JRef 2"
    "own_entries heap_headers (JRef 2) = [(''X-Existing'', JStr ''value'')]"
    by (simp_all add: heap_headers_def SECURITY_HEADERS_KEY_def prop_defs own_entries_def)
  note inst = securityHeaders_always_allows
    [of config_frame heap_headers 0
        "[(''contextType'', JStr ''http''), (''_securityHeaders'', JRef 1)]" "''X-Existing''",
     folded h'_def]
  from inst have allow:
    "fst (invoke (securityHeadersMiddleware config_frame) heap_headers 0) = Returns (RBool True)"
    by blast
  from inst closed existing
  have merged:
    "get_prop h' (get_prop h' (get_prop h' (JRef 0) SECURITY_HEADERS_KEY) ''headers'')
      ''X-Existing'' = JStr ''value''"
    "get_prop h' (get_prop h' (JRef 0) SECURITY_HEADERS_KEY) ''overwrite'' = JBool True"
    by (simp_all add: Let_def config_frame_def)
  have run: "h' =
      [JObject [(''contextType'', JStr ''http''), (''_securityHeaders'', JRef 5)],
       JObject [(''headers'', JRef 2), (''overwrite'', JBool False)],
       JObject [(''X-Existing'', JStr ''value'')],
       JObject [(''X-Frame-Options'', JStr ''SAMEORIGIN'')],
       JObject [(''X-Existing'', JStr ''value''), (''X-Frame-Options'', JStr ''SAMEORIGIN'')],
       JObject [(''headers'', JRef 4), (''overwrite'', JBool True)]]"
    unfolding h'_def by code_simp
  have reads:
    "getValueByPath h' (JRef 0) ''_securityHeaders.headers.X-Frame-Options'' = JStr ''SAMEORIGIN''"
    "getValueByPath h' (JRef 0) ''_securityHeaders.headers.X-Request-Id'' = JUndefined"
    "getValueByPath h' (JRef 0) ''contextType'' = JStr ''http''"
    unfolding run by (simp_all add: getValueByPath_def prop_defs)
  from closed allow merged reads show ?thesis unfolding h'_def by blast
qed

section \<open>Properties of the chain executor\<close>

lemma run_chain_short_circuit:
  assumes "k < length us"
    and "\<forall>j<k. unit_allows (us ! j) (heap_before us h ctx j) ctx"
    and "unit_denies (us ! k) (heap_before us h ctx k) ctx"
  shows "\<not> allowed (fst (run_chain us i recs h ctx))
     \<and> chain_stoppedAt (fst (run_chain us i recs h ctx)) = Some (i + k)
     \<and> map unit_index (trace (fst (run_chain us i recs h ctx))) =
         map unit_index recs @ [i..<Suc (i + k)]
     \<and> run_chain (take (Suc k) us @ others) i recs h ctx = run_chain us i recs h ctx"
  using assms
proof (induction us arbitrary: k i recs h)
  case Nil
  then show ?case by simp
next
  case (Cons u us)
  show ?case
  proof (cases k)
    case 0
    with Cons.prems(3) obtain r h' where inv: "invoke u h ctx = (Returns r, h')" "denies r"
      by (cases "invoke u h ctx"; cases "fst (invoke u h ctx)") (auto simp: unit_denies_def)
    with 0 show ?thesis by simp
  next
    case (Suc k')
    from Cons.prems(2) Suc have "unit_allows u h ctx" by force
    then obtain r h' where inv: "invoke u h ctx = (Returns r, h')" "\<not> denies r"
      by (cases "invoke u h ctx"; cases "fst (invoke u h ctx)") (auto simp: unit_allows_def)
    from Cons.prems(1) Suc have len: "k' < length us" by simp
    from Cons.prems(2) Suc inv have allows: "\<forall>j<k'. unit_allows (us ! j) (heap_before us h' ctx j) ctx"
      by (metis Suc_less_eq heap_before.simps(3) nth_Cons_Suc snd_conv)
    from Cons.prems(3) Suc inv have denies: "unit_denies (us ! k') (heap_before us h' ctx k') ctx"
      by simp
    note ih = Cons.IH [OF len allows denies, of "Suc i"
        "recs @ [\<lparr> unit_name = middlewareName u, unit_index = i,
                    unit_allowed = True, unit_error = None \<rparr>]"]
    have up: "i # [Suc i..<Suc (Suc (i + k'))] = [i..<Suc (Suc (i + k'))]"
      by (simp add: upt_conv_Cons)
    from ih inv Suc up show ?thesis by simp
  qed
qed

text \<open>
  Claim C1.  When the units at positions \<open>0\<close> to \<open>k - 1\<close> allow and the unit at position
  \<open>k\<close> denies, each on the heap it is invoked with, the run is denied with
  \<open>stoppedAt = k\<close>; the units invoked are exactly those at positions \<open>0\<close> to \<open>k\<close>, in
  order; and no unit after position \<open>k\<close> is invoked: replacing the units after \<open>k\<close> by
  any others changes neither the result nor the heap.
\<close>

theorem chain_short_circuits:
  assumes "k < length units"
    and "\<forall>i<k. unit_allows (units ! i) (heap_before units h ctx i) ctx"
    and "unit_denies (units ! k) (heap_before units h ctx k) ctx"
  shows "\<not> allowed (fst (execute units h ctx))
     \<and> chain_stoppedAt (fst (execute units h ctx)) = Some k
     \<and> map unit_index (trace (fst (execute units h ctx))) = [0..<Suc k]
     \<and> execute (take (Suc k) units @ others) h ctx = execute units h ctx"
  using run_chain_short_circuit [OF assms, of 0 "[]" others]
  by (simp add: execute_def)

theorem chain_short_circuits_witness:
  "2 < length example_chain
   \<and> unit_allows (example_chain ! 0) (heap_before example_chain heap_auth_granted 0 0) 0
   \<and> unit_allows (example_chain ! 1) (heap_before example_chain heap_auth_granted 0 1) 0
   \<and> unit_denies (example_chain ! 2) (heap_before example_chain heap_auth_granted 0 2) 0
   \<and> \<not> allowed (fst (execute example_chain heap_auth_granted 0))
   \<and> chain_stoppedAt (fst (execute example_chain heap_auth_granted 0)) = Some 2
   \<and> map unit_index (trace (fst (execute example_chain heap_auth_granted 0))) = [0, 1, 2]
   \<and> execute [unit_allow, unit_allow, unit_deny] heap_auth_granted 0 =
       execute example_chain heap_auth_granted 0
   \<and> snd (execute example_chain heap_auth_granted 0) = heap_auth_granted
   \<and> snd (invoke unit_mark heap_auth_granted 0) \<noteq> heap_auth_granted"
proof -
  have len: "2 < length example_chain" by (simp add: example_chain_def)
  have u0: "unit_allows (example_chain ! 0) (heap_before example_chain heap_auth_granted 0 0) 0"
    by (simp add: example_chain_def unit_allows_def unit_allow_def createMiddleware_def)
  have u1: "unit_allows (example_chain ! 1) (heap_before example_chain heap_auth_granted 0 1) 0"
    by (simp add: example_chain_def unit_allows_def unit_allow_def createMiddleware_def
        numeral_2_eq_2)
  have u2: "unit_denies (example_chain ! 2) (heap_before example_chain heap_auth_granted 0 2) 0"
    by (simp add: example_chain_def unit_denies_def unit_deny_def createMiddleware_def
        numeral_2_eq_2)
  have before: "\<forall>i<2. unit_allows (example_chain ! i)
      (heap_before example_chain heap_auth_granted 0 i) 0"
    using u0 u1 by (auto simp: less_Suc_eq numeral_2_eq_2)
  note inst = chain_short_circuits [OF len before u2, of "[]"]
  have upt: "[0..<Suc 2] = [0, 1, 2]" by (simp add: upt_conv_Cons)
  have taken: "take (Suc 2) example_chain @ [] = [unit_allow, unit_allow, unit_deny]"
    by (simp add: example_chain_def)
  have final: "snd (execute example_chain heap_auth_granted 0) = heap_auth_granted"
    by (simp add: execute_def example_chain_def unit_allow_def unit_deny_def
        createMiddleware_def)
  have mark: "snd (invoke unit_mark heap_auth_granted 0) \<noteq> heap_auth_granted"
    by (simp add: unit_mark_def createMiddleware_def assign_prop_def heap_lookup_def
        heap_auth_granted_def)
  from inst len u0 u1 u2 final mark show ?thesis
    unfolding upt taken by blast
qed

end
